theory Spec2Isabelle
  imports Main "HOL-Library.Word"
begin

unbundle bit_operations_syntax

section \<open>Master node: data model\<close>

text \<open>
  The master firmware targets an 8-bit AVR: \<open>unsigned int\<close> and \<open>unsigned short\<close> are
  16 bits wide, the I/O registers are 8 bits wide and the timer registers \<open>TCNT0\<close> and
  \<open>OCR0A\<close> are 16 bits wide. The record holds the globals of the master's \<open>main.c\<close> and
  the registers that the code reads or writes after start-up. Registers written once in
  \<open>initializeRegisters\<close> and never touched again (clock prescaler, watchdog and sleep
  configuration, \<open>DIDR0\<close>, \<open>TIMSK0\<close>, \<open>SREG\<close>) are left out.
\<close>

datatype ReadDataState =
  Read_Idle | Read_VerifyTrigger | Read_Reading | Read_Timeout | Read_Error

record master =
  g_readDataState :: ReadDataState
  g_incomingCount :: "16 word"
  g_ledBlinkCount :: "16 word"
  g_adcThreshold :: "16 word"
  g_idleTimeoutCount :: "16 word"
  PORTB :: "8 word"
  PUEB :: "8 word"
  DDRB :: "8 word"
  OCR0A :: "16 word"
  TCNT0 :: "16 word"
  TCCR0B :: "8 word"
  EICRA :: "8 word"
  EIMSK :: "8 word"
  ADCSRA :: "8 word"
  PRR :: "8 word"

definition VERIFYTRIGGERTIMEOUT :: "16 word" where "VERIFYTRIGGERTIMEOUT = 4"
definition READINGTIMEOUT :: "16 word" where "READINGTIMEOUT = 15625"
definition MAXTIMEOUT :: "16 word" where "MAXTIMEOUT = 0xFFFF"
definition MAXTIMEOUTCOUNT :: "16 word" where "MAXTIMEOUTCOUNT = 5"
definition SLEEPDELAYCOUNT :: nat where "SLEEPDELAYCOUNT = 30"
definition ADCTHRESHOLDHI :: "16 word" where "ADCTHRESHOLDHI = 7"
definition ADCTHRESHOLDLOW :: "16 word" where "ADCTHRESHOLDLOW = 4"
definition MAXVOLTAGEADCVALUE :: "16 word" where "MAXVOLTAGEADCVALUE = 232"
definition MINVOLTAGEADCVALUE :: "16 word" where "MINVOLTAGEADCVALUE = 163"
definition BLINKTOGGLEVALUE :: "16 word" where "BLINKTOGGLEVALUE = 16384"
definition CLIENTDEBOUNCEDELAY :: nat where "CLIENTDEBOUNCEDELAY = 0xFFFF"

text \<open>The avr-libc macro \<open>_BV(n)\<close>, that is \<open>1 << n\<close>, on an 8-bit register.\<close>

definition BV :: "nat \<Rightarrow> 8 word" where
  "BV n = push_bit n 1"

text \<open>The start state: the C initialisers of the globals, and registers at their reset value 0.\<close>

definition power_on :: master where
  "power_on = \<lparr> g_readDataState = Read_Idle, g_incomingCount = 0, g_ledBlinkCount = 0,
     g_adcThreshold = 0, g_idleTimeoutCount = 0, PORTB = 0, PUEB = 0, DDRB = 0,
     OCR0A = 0, TCNT0 = 0, TCCR0B = 0, EICRA = 0, EIMSK = 0, ADCSRA = 0, PRR = 0 \<rparr>"

section \<open>Master node: operations\<close>

definition initializeRegisters :: "master \<Rightarrow> master" where
  "initializeRegisters s =
     (let s1 = s\<lparr> g_adcThreshold := ADCTHRESHOLDHI \<rparr>;
          s2 = s1\<lparr> PUEB := PUEB s1 OR BV 3 \<rparr>;
          s3 = s2\<lparr> DDRB := DDRB s2 OR BV 1 \<rparr>;
          s4 = s3\<lparr> OCR0A := MAXTIMEOUT \<rparr>;
          s5 = s4\<lparr> ADCSRA := 0x83 \<rparr>
      in s5\<lparr> EIMSK := 0x01 \<rparr>)"

definition resetAndStartTimer :: "master \<Rightarrow> master" where
  "resetAndStartTimer s = (let s1 = s\<lparr> TCNT0 := 0 \<rparr> in s1\<lparr> TCCR0B := TCCR0B s1 OR 0x04 \<rparr>)"

definition stopTimer :: "master \<Rightarrow> master" where
  "stopTimer s = s\<lparr> TCCR0B := TCCR0B s AND 0xFB \<rparr>"

definition resetReadStateToIdle :: "master \<Rightarrow> master" where
  "resetReadStateToIdle s =
     s\<lparr> g_idleTimeoutCount := 0, g_readDataState := Read_Idle, OCR0A := MAXTIMEOUT,
        EICRA := 0x00, EIMSK := 0x01 \<rparr>"

definition toggleLed :: "master \<Rightarrow> master" where
  "toggleLed s =
     s\<lparr> PORTB := (if PORTB s AND BV 1 \<noteq> 0 then PORTB s AND NOT (BV 1) else PORTB s OR BV 1) \<rparr>"

definition turnOnLed :: "master \<Rightarrow> master" where
  "turnOnLed s = s\<lparr> PORTB := PORTB s OR BV 1 \<rparr>"

definition turnOffLed :: "master \<Rightarrow> master" where
  "turnOffLed s = s\<lparr> PORTB := PORTB s AND NOT (BV 1) \<rparr>"

definition incrementAndBlinkLed :: "master \<Rightarrow> master" where
  "incrementAndBlinkLed s =
     (let s1 = s\<lparr> g_ledBlinkCount := g_ledBlinkCount s + 1 \<rparr>
      in if 0 = g_ledBlinkCount s1 mod BLINKTOGGLEVALUE then toggleLed s1 else s1)"

text \<open>
  \<open>turnOnClient\<close>: the \<open>for\<close> loop runs its body \<open>CLIENTDEBOUNCEDELAY\<close> times (the
  16-bit counter \<open>j\<close> stops at \<open>0xFFFF\<close>).
\<close>

definition turnOnClient :: "master \<Rightarrow> master" where
  "turnOnClient s =
     (let s1 = s\<lparr> PUEB := PUEB s AND NOT (BV 3) \<rparr>;
          s2 = s1\<lparr> DDRB := DDRB s1 OR BV 3 \<rparr>
      in (incrementAndBlinkLed ^^ CLIENTDEBOUNCEDELAY) s2)"

definition turnOffClient :: "master \<Rightarrow> master" where
  "turnOffClient s =
     (let s1 = s\<lparr> PUEB := PUEB s OR BV 3 \<rparr>
      in s1\<lparr> DDRB := DDRB s1 AND NOT (BV 3) \<rparr>)"

definition startADC :: "master \<Rightarrow> master" where
  "startADC s = s\<lparr> ADCSRA := ADCSRA s OR 0x40 \<rparr>"

definition adcInProgress :: "master \<Rightarrow> 16 word" where
  "adcInProgress s = ucast (ADCSRA s AND 0x40)"

text \<open>
  One analog conversion as the program sees it: the number of times the busy-wait loop
  body runs before the hardware clears the \<open>ADSC\<close> bit, and the value then found in
  \<open>ADCL\<close>.
\<close>

type_synonym adc_read = "nat \<times> 8 word"

definition adcValue :: "8 word \<Rightarrow> 16 word" where
  "adcValue adcl = ucast adcl"

definition getAdcValueBusyWait :: "adc_read \<Rightarrow> master \<Rightarrow> 16 word \<times> master" where
  "getAdcValueBusyWait r s =
     (let s1 = startADC s;
          s2 = (incrementAndBlinkLed ^^ fst r) s1;
          s3 = s2\<lparr> ADCSRA := ADCSRA s2 AND NOT 0x40 \<rparr>
      in (adcValue (snd r), s3))"

text \<open>
  \<open>getAdcValueBusyWaitWithAveraging\<close>: iteration \<open>i\<close> of the loop takes conversion
  \<open>rd i\<close> and adds it to the 16-bit accumulator; \<open>adc_loop n\<close> is the loop after \<open>n\<close>
  iterations.
\<close>

definition ADCITERATIONS :: nat where "ADCITERATIONS = 4"

fun adc_loop :: "nat \<Rightarrow> (nat \<Rightarrow> adc_read) \<Rightarrow> master \<Rightarrow> 16 word \<times> master" where
  "adc_loop 0 rd s = (0, s)"
| "adc_loop (Suc i) rd s =
     (case adc_loop i rd s of (adcvalue, s1) \<Rightarrow>
        (case getAdcValueBusyWait (rd i) s1 of (v, s2) \<Rightarrow> (adcvalue + v, s2)))"

definition getAdcValueBusyWaitWithAveraging ::
    "(nat \<Rightarrow> adc_read) \<Rightarrow> master \<Rightarrow> 16 word \<times> master" where
  "getAdcValueBusyWaitWithAveraging rd s =
     (case adc_loop ADCITERATIONS rd s of
        (adcvalue, s1) \<Rightarrow> (adcvalue div of_nat ADCITERATIONS, s1))"

definition readPinB2 :: "8 word \<Rightarrow> 16 word" where
  "readPinB2 pinb = ucast (pinb AND BV 2)"

subsection \<open>Interrupt service routines\<close>

definition INT0_vect :: "master \<Rightarrow> master" where
  "INT0_vect s =
     (case g_readDataState s of
        Read_Idle \<Rightarrow>
          (let s1 = stopTimer s;
               s2 = s1\<lparr> EIMSK := 0x00 \<rparr>;
               s3 = s2\<lparr> g_readDataState := Read_VerifyTrigger \<rparr>;
               s4 = s3\<lparr> OCR0A := VERIFYTRIGGERTIMEOUT \<rparr>
           in resetAndStartTimer s4)
      | Read_Reading \<Rightarrow> s\<lparr> g_incomingCount := g_incomingCount s + 1 \<rparr>
      | _ \<Rightarrow> s)"

text \<open>The compare-match routine reads the input register \<open>PINB\<close>, passed as \<open>pinb\<close>.\<close>

definition TIM0_COMPA_vect :: "8 word \<Rightarrow> master \<Rightarrow> master" where
  "TIM0_COMPA_vect pinb s =
     (case g_readDataState s of
        Read_VerifyTrigger \<Rightarrow>
          (let s1 = stopTimer s;
               s2 = (if readPinB2 pinb \<noteq> 0 then resetReadStateToIdle s1
                     else s1\<lparr> g_incomingCount := 0, g_readDataState := Read_Reading,
                              OCR0A := READINGTIMEOUT, EICRA := 0x02, EIMSK := 0x01 \<rparr>)
           in resetAndStartTimer s2)
      | Read_Reading \<Rightarrow>
          (let s1 = stopTimer s;
               s2 = s1\<lparr> g_readDataState :=
                          (if readPinB2 pinb \<noteq> 0 then Read_Timeout else Read_Error) \<rparr>
           in s2\<lparr> EIMSK := 0x00 \<rparr>)
      | _ \<Rightarrow> s)"

text \<open>
  The overflow routine: \<open>&&\<close> short-circuits, so the counter is incremented only in
  \<open>Read_Idle\<close>; the increment is kept also when the comparison fails.
\<close>

definition TIM0_OVF_vect :: "master \<Rightarrow> master" where
  "TIM0_OVF_vect s =
     (if g_readDataState s = Read_Idle then
        (let s1 = s\<lparr> g_idleTimeoutCount := g_idleTimeoutCount s + 1 \<rparr>
         in if g_idleTimeoutCount s1 > MAXTIMEOUTCOUNT then
              (let s2 = stopTimer s1;
                   s3 = s2\<lparr> g_readDataState := Read_Error \<rparr>;
                   s4 = s3\<lparr> g_idleTimeoutCount := 0 \<rparr>
               in s4\<lparr> EIMSK := 0x00 \<rparr>)
            else s1)
      else s)"

subsection \<open>Events\<close>

text \<open>
  An event is one run of an interrupt service routine. \<open>isr\<close> dispatches it; \<open>run\<close>
  delivers a sequence of events in order.
\<close>

datatype event = Int0 | Tim0_CompA "8 word" | Tim0_Ovf

fun isr :: "event \<Rightarrow> master \<Rightarrow> master" where
  "isr Int0 s = INT0_vect s"
| "isr (Tim0_CompA pinb) s = TIM0_COMPA_vect pinb s"
| "isr Tim0_Ovf s = TIM0_OVF_vect s"

fun run :: "event list \<Rightarrow> master \<Rightarrow> master" where
  "run [] s = s"
| "run (e # es) s = run es (isr e s)"

text \<open>The states visited while the events are delivered, the start state first.\<close>

fun trace :: "event list \<Rightarrow> master \<Rightarrow> master list" where
  "trace [] s = [s]"
| "trace (e # es) s = s # trace es (isr e s)"

subsection \<open>The main loop\<close>

text \<open>
  The busy-wait of \<open>main\<close>: the loop body runs until an interrupt routine has moved the
  decoder to \<open>Read_Timeout\<close> or \<open>Read_Error\<close>. Each entry \<open>(n, e)\<close> of the input
  is \<open>n\<close> runs of the loop body followed by the interrupt \<open>e\<close>. With no interrupt left
  and the decoder not finished the loop never exits: the result is \<open>None\<close>.
\<close>

fun busy_wait :: "(nat \<times> event) list \<Rightarrow> master \<Rightarrow> master option" where
  "busy_wait [] s =
     (if g_readDataState s \<noteq> Read_Timeout \<and> g_readDataState s \<noteq> Read_Error
      then None else Some s)"
| "busy_wait (ne # rest) s =
     (if g_readDataState s \<noteq> Read_Timeout \<and> g_readDataState s \<noteq> Read_Error
      then busy_wait rest (isr (snd ne) ((incrementAndBlinkLed ^^ fst ne) s))
      else Some s)"

text \<open>The double blink of the low-voltage branch: four passes, each a delay and a toggle.\<close>

definition double_blink :: "master \<Rightarrow> master" where
  "double_blink s = (toggleLed ^^ 4) s"

text \<open>
  The tail of the loop body, from \<open>turnOffClient()\<close> on: power down, sleep
  \<open>SLEEPDELAYCOUNT\<close> times with the heartbeat (two toggles per pass), power up.
\<close>

definition sleep_tail :: "master \<Rightarrow> master" where
  "sleep_tail s =
     (let s1 = turnOffClient s;
          s2 = s1\<lparr> ADCSRA := ADCSRA s1 AND 0x7F \<rparr>;
          s3 = s2\<lparr> PRR := 0x03 \<rparr>;
          s4 = ((\<lambda>t. toggleLed (toggleLed t)) ^^ SLEEPDELAYCOUNT) s3;
          s5 = s4\<lparr> PRR := 0x00 \<rparr>
      in s5\<lparr> ADCSRA := ADCSRA s5 OR 0x80 \<rparr>)"

text \<open>
  How one pass of the \<open>while (1)\<close> loop ends: \<open>Retry\<close> is the \<open>continue\<close> statement
  (the next pass starts at once), \<open>Slept\<close> is a pass that ran to the end of the body.
\<close>

datatype cycle_end = Retry | Slept

text \<open>
  The branch taken once the busy-wait is over (the \<open>if (g_readDataState == Read_Timeout)\<close>
  statement and what follows it in the pass).
\<close>

definition charge_decision :: "(nat \<Rightarrow> adc_read) \<Rightarrow> master \<Rightarrow> cycle_end \<times> master" where
  "charge_decision rd s =
     (if g_readDataState s = Read_Timeout then
        (case getAdcValueBusyWaitWithAveraging rd s of (r, s1) \<Rightarrow>
           if g_incomingCount s1 < r + g_adcThreshold s1
              \<and> g_incomingCount s1 < MAXVOLTAGEADCVALUE
           then (Retry, s1\<lparr> g_adcThreshold := ADCTHRESHOLDHI \<rparr>)
           else (Slept, sleep_tail (turnOffLed (s1\<lparr> g_adcThreshold := ADCTHRESHOLDLOW \<rparr>))))
      else (Slept, sleep_tail (turnOnLed s)))"

text \<open>
  What one pass of the loop meets in its environment. Interrupts are enabled during the
  whole pass (\<open>SREG = 0x80\<close>, and \<open>EIMSK = 0x01\<close> from \<open>initializeRegisters\<close> on), so
  interrupt routines can run outside the busy-wait too: \<open>stray\<close> lists the routines that
  run before the call of \<open>resetReadStateToIdle\<close> in the reading branch, and anywhere in
  the pass in the low-voltage branch; \<open>interrupts\<close> lists those that run from there on,
  in the busy-wait (a routine that runs between \<open>resetReadStateToIdle\<close> and
  \<open>resetAndStartTimer\<close> leaves the same state as one that runs right after both, lemma
  \<open>isr_before_timer_start\<close>). The routines and the statements of the main loop outside the
  busy-wait write different variables and registers, so the place where a stray routine
  runs among these statements makes no difference (lemmas \<open>run_turnOnClient\<close> to
  \<open>run_getAdc\<close> below); the model runs them at the start of the pass. After the
  busy-wait the decoder is in \<open>Read_Timeout\<close> or \<open>Read_Error\<close>, where every routine
  leaves the state as it is (lemma \<open>isr_terminal\<close>).
\<close>

record cycle_input =
  adc_first :: adc_read
  stray :: "event list"
  interrupts :: "(nat \<times> event) list"
  adc_avg :: "nat \<Rightarrow> adc_read"

text \<open>
  The states of the low-voltage branch and of the tail of the pass that follows it:
  on entry, after \<open>turnOffLed\<close>, after the double blink, after \<open>turnOffClient\<close>, and
  at the end of the pass.
\<close>

definition low_voltage_states :: "master \<Rightarrow> master list" where
  "low_voltage_states s =
     (let s1 = turnOffLed s;
          s2 = double_blink s1;
          s3 = turnOffClient s2;
          s4 = sleep_tail s2
      in [s, s1, s2, s3, s4])"

text \<open>The three calls that open the reading branch of the pass.\<close>

definition start_reading :: "master \<Rightarrow> master" where
  "start_reading s = resetAndStartTimer (resetReadStateToIdle (turnOnClient s))"

definition main_loop_body :: "cycle_input \<Rightarrow> master \<Rightarrow> (cycle_end \<times> master) option" where
  "main_loop_body inp s =
     (case getAdcValueBusyWait (adc_first inp) (run (stray inp) s) of (v, s1) \<Rightarrow>
        if v > MINVOLTAGEADCVALUE then
          (case busy_wait (interrupts inp) (start_reading s1) of
             None \<Rightarrow> None
           | Some s5 \<Rightarrow> Some (charge_decision (adc_avg inp) s5))
        else Some (Slept, last (low_voltage_states s1)))"

text \<open>
  Consecutive passes of the loop, one input per pass; the result lists how each pass
  ended and the state it left.
\<close>

fun main_passes :: "cycle_input list \<Rightarrow> master \<Rightarrow> (cycle_end \<times> master) list option" where
  "main_passes [] s = Some []"
| "main_passes (inp # inps) s =
     (case main_loop_body inp s of
        None \<Rightarrow> None
      | Some (e, s1) \<Rightarrow>
          (case main_passes inps s1 of None \<Rightarrow> None | Some rs \<Rightarrow> Some ((e, s1) # rs)))"

text \<open>The client is powered while pin PB3 is driven as an output.\<close>

definition client_powered :: "master \<Rightarrow> bool" where
  "client_powered s = (DDRB s AND BV 3 \<noteq> 0)"

definition led_on :: "master \<Rightarrow> bool" where
  "led_on s = (PORTB s AND BV 1 \<noteq> 0)"

section \<open>Client node\<close>

text \<open>
  The client's globals and its port register. The ghost field \<open>wire\<close> lists, in order,
  the level of the data pin PB2 after each write of the program to that pin
  (\<open>True\<close> is high).
\<close>

record client =
  c_ledBlinkCount :: "16 word"
  c_PORTB :: "8 word"
  wire :: "bool list"

definition TRIGGERTIMEOUTCOUNT :: nat where "TRIGGERTIMEOUTCOUNT = 256"
definition TRANSMITDELAYCOUNT :: nat where "TRANSMITDELAYCOUNT = 128"
definition c_ADCITERATIONS :: nat where "c_ADCITERATIONS = 3"
definition c_MAXVOLTAGEADCVALUE :: "16 word" where "c_MAXVOLTAGEADCVALUE = 237"

definition c_toggleLed :: "client \<Rightarrow> client" where
  "c_toggleLed s =
     s\<lparr> c_PORTB := (if c_PORTB s AND BV 1 \<noteq> 0 then c_PORTB s AND NOT (BV 1)
                     else c_PORTB s OR BV 1) \<rparr>"

definition c_turnOnLed :: "client \<Rightarrow> client" where
  "c_turnOnLed s = s\<lparr> c_PORTB := c_PORTB s OR BV 1 \<rparr>"

definition c_turnOffLed :: "client \<Rightarrow> client" where
  "c_turnOffLed s = s\<lparr> c_PORTB := c_PORTB s AND NOT (BV 1) \<rparr>"

definition c_incrementAndBlinkLed :: "client \<Rightarrow> client" where
  "c_incrementAndBlinkLed s =
     (let s1 = s\<lparr> c_ledBlinkCount := c_ledBlinkCount s + 1 \<rparr>
      in if c_ledBlinkCount s1 mod BLINKTOGGLEVALUE = 0 then c_toggleLed s1 else s1)"

text \<open>The two writes to the data pin, \<open>PORTB &= ~_BV(2)\<close> and \<open>PORTB |= _BV(2)\<close>.\<close>

definition pb2_low :: "client \<Rightarrow> client" where
  "pb2_low s =
     (let s1 = s\<lparr> c_PORTB := c_PORTB s AND NOT (BV 2) \<rparr>
      in s1\<lparr> wire := wire s1 @ [c_PORTB s1 AND BV 2 \<noteq> 0] \<rparr>)"

definition pb2_high :: "client \<Rightarrow> client" where
  "pb2_high s =
     (let s1 = s\<lparr> c_PORTB := c_PORTB s OR BV 2 \<rparr>
      in s1\<lparr> wire := wire s1 @ [c_PORTB s1 AND BV 2 \<noteq> 0] \<rparr>)"

definition transmitOneTick :: "client \<Rightarrow> client" where
  "transmitOneTick s =
     (let s1 = pb2_low s;
          s2 = (c_incrementAndBlinkLed ^^ TRANSMITDELAYCOUNT) s1;
          s3 = pb2_high s2
      in (c_incrementAndBlinkLed ^^ TRANSMITDELAYCOUNT) s3)"

definition triggerRead :: "client \<Rightarrow> client" where
  "triggerRead s =
     (let s1 = pb2_low s;
          s2 = (c_incrementAndBlinkLed ^^ TRIGGERTIMEOUTCOUNT) s1;
          s3 = pb2_high s2
      in (c_incrementAndBlinkLed ^^ TRANSMITDELAYCOUNT) s3)"

definition outputDataError :: "client \<Rightarrow> client" where
  "outputDataError s = c_turnOnLed (c_turnOffLed (pb2_low s))"

definition resetAndStart :: "client \<Rightarrow> client" where
  "resetAndStart s = c_turnOffLed s"

definition c_getAdcValueBusyWait :: "adc_read \<Rightarrow> client \<Rightarrow> 16 word \<times> client" where
  "c_getAdcValueBusyWait r s = (ucast (snd r), (c_incrementAndBlinkLed ^^ fst r) s)"

fun c_adc_loop :: "nat \<Rightarrow> (nat \<Rightarrow> adc_read) \<Rightarrow> client \<Rightarrow> 16 word \<times> client" where
  "c_adc_loop 0 rd s = (0, s)"
| "c_adc_loop (Suc i) rd s =
     (case c_adc_loop i rd s of (adcvalue, s1) \<Rightarrow>
        (case c_getAdcValueBusyWait (rd i) s1 of (v, s2) \<Rightarrow> (adcvalue + v, s2)))"

text \<open>
  The encoder proper: what the pass does with the averaged sample \<open>adcvalue\<close>. The
  \<open>for\<close> loop compares \<open>int i\<close> with the \<open>unsigned int\<close> sample, an unsigned
  comparison, so it calls \<open>transmitOneTick\<close> \<open>unat adcvalue\<close> times.
\<close>

definition encode :: "16 word \<Rightarrow> client \<Rightarrow> client" where
  "encode adcvalue s =
     (if adcvalue > c_MAXVOLTAGEADCVALUE \<or> adcvalue = 0 then outputDataError s
      else (let s1 = triggerRead s;
                s2 = (transmitOneTick ^^ unat adcvalue) s1
            in c_turnOffLed (c_turnOnLed s2)))"

text \<open>One pass of the client's \<open>while (1)\<close> loop, up to the sleep.\<close>

definition c_main_loop_body :: "(nat \<Rightarrow> adc_read) \<Rightarrow> client \<Rightarrow> client" where
  "c_main_loop_body rd s =
     (case c_adc_loop c_ADCITERATIONS rd (resetAndStart s) of
        (adcvalue, s1) \<Rightarrow> encode (adcvalue div of_nat c_ADCITERATIONS) s1)"

text \<open>The client after \<open>initializeRegisters\<close>: data pin high, nothing written to it yet.\<close>

definition c_initial :: client where
  "c_initial = \<lparr> c_ledBlinkCount = 0, c_PORTB = BV 2, wire = [] \<rparr>"

section \<open>Reception of a frame\<close>

text \<open>
  The level of the data line as the master reads it in \<open>PINB\<close> (bit 2).
\<close>

definition pin_level :: "bool \<Rightarrow> 8 word" where
  "pin_level l = (if l then BV 2 else 0)"

text \<open>
  When the external interrupt fires, as the firmware configures it: \<open>EIMSK = 0x01\<close>
  enables INT0, \<open>EICRA = 0x00\<close> selects "interrupt on low INT0" and \<open>EICRA = 0x02\<close>
  "interrupt on falling edge of INT0". \<open>prev\<close> and \<open>cur\<close> are the line levels before
  and after a change of the line. The firmware uses no other setting of \<open>EICRA\<close>.
\<close>

definition int0_fires :: "bool \<Rightarrow> bool \<Rightarrow> master \<Rightarrow> bool" where
  "int0_fires prev cur s =
     (EIMSK s AND 0x01 \<noteq> 0 \<and>
      (if EICRA s AND 0x03 = 0x00 then \<not> cur
       else if EICRA s AND 0x03 = 0x02 then prev \<and> \<not> cur
       else False))"

definition line_change :: "bool \<Rightarrow> bool \<Rightarrow> master \<Rightarrow> master" where
  "line_change prev cur s = (if int0_fires prev cur s then INT0_vect s else s)"

fun line_changes :: "bool \<Rightarrow> bool list \<Rightarrow> master \<Rightarrow> master" where
  "line_changes prev [] s = s"
| "line_changes prev (l # ls) s = line_changes l ls (line_change prev l s)"

text \<open>
  Nominal timing, no noise. The line idles high. The sender holds its first level for
  \<open>TRIGGERTIMEOUTCOUNT\<close> loop passes, far longer than the \<open>VERIFYTRIGGERTIMEOUT\<close> timer
  ticks of the master, so the first compare match comes while that level is on the line.
  The whole frame is shorter than \<open>READINGTIMEOUT\<close> ticks, so the second compare match
  comes after the last write, with the last level on the line. The timer is restarted at
  each of these steps and does not overflow in between.
\<close>

definition receive_nominal :: "bool list \<Rightarrow> master \<Rightarrow> master" where
  "receive_nominal ws s =
     (case ws of
        [] \<Rightarrow> s
      | l # ls \<Rightarrow>
          (let s1 = line_change True l s;
               s2 = TIM0_COMPA_vect (pin_level l) s1;
               s3 = line_changes l ls s2
           in TIM0_COMPA_vect (pin_level (last ws)) s3))"

text \<open>The levels an operation of the client wrote to the data pin.\<close>

definition written :: "client \<Rightarrow> client \<Rightarrow> bool list" where
  "written before after = drop (length (wire before)) (wire after)"

section \<open>Events and the decoder's transitions\<close>

text \<open>
  The pairs of decoder state and event for which the interrupt routines have a
  \<open>case\<close> (or, for the overflow routine, for which the \<open>if\<close> reads on).
\<close>

fun handled :: "ReadDataState \<Rightarrow> event \<Rightarrow> bool" where
  "handled Read_Idle Int0 = True"
| "handled Read_Reading Int0 = True"
| "handled Read_VerifyTrigger (Tim0_CompA pinb) = True"
| "handled Read_Reading (Tim0_CompA pinb) = True"
| "handled Read_Idle Tim0_Ovf = True"
| "handled st e = False"

definition count_ovf :: "event list \<Rightarrow> nat" where
  "count_ovf evs = length (filter (\<lambda>e. e = Tim0_Ovf) evs)"

text \<open>A glitch: the line dips low and is high again when the verification timer expires.\<close>

definition glitch :: "8 word \<Rightarrow> event list" where
  "glitch pinb = [Int0, Tim0_CompA pinb]"

text \<open>
  A run of the line in which glitches keep arriving: each window is a stretch of timer
  events only, followed by a glitch whose verification finds the line at \<open>snd w\<close>.
  A stretch is a \<open>quiet_window\<close> when it has no edge interrupt and at most
  \<open>MAXTIMEOUTCOUNT\<close> overflows.
\<close>

fun glitch_windows :: "(event list \<times> 8 word) list \<Rightarrow> event list" where
  "glitch_windows [] = []"
| "glitch_windows (w # ws) = fst w @ glitch (snd w) @ glitch_windows ws"

definition quiet_window :: "event list \<Rightarrow> bool" where
  "quiet_window evs = (Int0 \<notin> set evs \<and> count_ovf evs \<le> unat MAXTIMEOUTCOUNT)"

section \<open>Auxiliary notions\<close>

text \<open>The decoder has finished: the condition that ends the busy-wait of \<open>main\<close>.\<close>

definition terminal :: "master \<Rightarrow> bool" where
  "terminal s = (g_readDataState s = Read_Timeout \<or> g_readDataState s = Read_Error)"

text \<open>The decoder: its state, its two counters, the timer and the interrupt registers.\<close>

definition decoder_view ::
    "master \<Rightarrow> ReadDataState \<times> 16 word \<times> 16 word \<times> 16 word \<times> 16 word \<times> 8 word \<times> 8 word \<times> 8 word" where
  "decoder_view s =
     (g_readDataState s, g_incomingCount s, g_idleTimeoutCount s, OCR0A s, TCNT0 s,
      TCCR0B s, EICRA s, EIMSK s)"

text \<open>
  \<open>led_only s t\<close>: the state \<open>t\<close> differs from \<open>s\<close> at most in the blink counter and in
  the LED bit of \<open>PORTB\<close>.
\<close>

definition led_only :: "master \<Rightarrow> master \<Rightarrow> bool" where
  "led_only s t =
     (t = s\<lparr> g_ledBlinkCount := g_ledBlinkCount t, PORTB := PORTB t \<rparr> \<and>
      PORTB t AND NOT (BV 1) = PORTB s AND NOT (BV 1))"

text \<open>
  \<open>adc_only s t\<close>: the state \<open>t\<close> differs from \<open>s\<close> at most in the blink counter,
  in \<open>PORTB\<close> and in \<open>ADCSRA\<close>.
\<close>

definition adc_only :: "master \<Rightarrow> master \<Rightarrow> bool" where
  "adc_only s t =
     (t = s\<lparr> g_ledBlinkCount := g_ledBlinkCount t, PORTB := PORTB t, ADCSRA := ADCSRA t \<rparr>)"

text \<open>
  The averaged reference as the specification words it: the integer-truncated average
  of the four readings.
\<close>

definition spec_average :: "(nat \<Rightarrow> adc_read) \<Rightarrow> nat" where
  "spec_average rd =
     (unat (snd (rd 0)) + unat (snd (rd 1)) + unat (snd (rd 2)) + unat (snd (rd 3))) div 4"

text \<open>
  Hysteresis over consecutive passes, as the specification words it: a pass that keeps
  charging leaves the high threshold selected and the client powered; a pass that does
  not leaves the client off and the threshold either as it found it or, after a
  \<open>Read_Timeout\<close> outcome, at its low value.
\<close>

fun hysteresis_monotone :: "master \<Rightarrow> (cycle_end \<times> master) list \<Rightarrow> bool" where
  "hysteresis_monotone s [] = True"
| "hysteresis_monotone s (r # rs) =
     ((case fst r of
         Retry \<Rightarrow> g_adcThreshold (snd r) = ADCTHRESHOLDHI \<and> client_powered (snd r)
       | Slept \<Rightarrow> \<not> client_powered (snd r) \<and>
           (g_adcThreshold (snd r) = g_adcThreshold s \<or>
            g_adcThreshold (snd r) = ADCTHRESHOLDLOW \<and> g_readDataState (snd r) = Read_Timeout))
      \<and> hysteresis_monotone (snd r) rs)"

text \<open>
  The interrupts of a frame of \<open>n\<close> edge-pairs received under nominal timing: the
  trigger (level interrupt, verification with the line low), \<open>n\<close> falling edges, the
  reading timeout with the line high.
\<close>

definition frame_events :: "nat \<Rightarrow> event list" where
  "frame_events n = Int0 # Tim0_CompA 0 # replicate n Int0 @ [Tim0_CompA 4]"

section \<open>Basic facts\<close>

lemma BV_simps [simp]: "BV 1 = 2" "BV (Suc 0) = 2" "BV 2 = 4" "BV 3 = 8"
  by (simp_all add: BV_def)

lemma readPinB2_pin_level [simp]: "(readPinB2 (pin_level l) \<noteq> 0) = l"
  by (simp add: readPinB2_def pin_level_def)

lemma or_and_not: "(x OR m) AND NOT m = x AND NOT (m::'a::len word)"
  by (rule bit_eqI) (auto simp: bit_simps)

lemma and_not_and_not: "(x AND NOT m) AND NOT m = x AND NOT (m::'a::len word)"
  by (rule bit_eqI) (auto simp: bit_simps)

lemma or_and_self: "(x OR m) AND m = (m::'a::len word)"
  by (rule bit_eqI) (auto simp: bit_simps)

lemma and_not_and_self: "(x AND NOT m) AND m = (0::'a::len word)"
  by (rule bit_eqI) (auto simp: bit_simps)

lemma and_not_other: "m AND k = 0 \<Longrightarrow> (x AND NOT m) AND k = x AND (k::'a::len word)"
  apply (rule bit_eqI) apply (auto simp: bit_simps bit_eq_iff) done

lemma or_other: "m AND k = 0 \<Longrightarrow> (x OR m) AND k = x AND (k::'a::len word)"
  apply (rule bit_eqI) apply (auto simp: bit_simps bit_eq_iff) done

lemma led_masks [simp]:
  fixes x :: "8 word"
  shows "(x OR 2) AND - 3 = x AND - 3" "(x AND - 3) AND - 3 = x AND - 3"
    "(x OR 2) AND 2 = 2" "(x AND - 3) AND 2 = 0"
  using or_and_not [of x 2] and_not_and_not [of x 2] or_and_self [of x 2] and_not_and_self [of x 2]
  by simp_all

lemma pb3_masks [simp]:
  fixes x :: "8 word"
  shows "(x OR 8) AND 8 = 8" "(x AND - 9) AND 8 = 0"
    "(x OR 2) AND 8 = x AND 8" "(x AND - 3) AND 8 = x AND 8"
  using or_and_self [of x 8] and_not_and_self [of x 8] or_other [of 2 8 x] and_not_other [of 2 8 x]
  by simp_all

lemma pb2_masks [simp]:
  fixes x :: "8 word"
  shows "(x OR 4) AND 4 = 4" "(x AND - 5) AND 4 = 0"
    "(x OR 2) AND 4 = x AND 4" "(x AND - 3) AND 4 = x AND 4"
  using or_and_self [of x 4] and_not_and_self [of x 4] or_other [of 2 4 x] and_not_other [of 2 4 x]
  by simp_all

subsection \<open>The interrupt routines on a silent line\<close>

lemmas isr_defs = INT0_vect_def TIM0_COMPA_vect_def TIM0_OVF_vect_def stopTimer_def
  resetReadStateToIdle_def resetAndStartTimer_def

lemma run_append: "run (xs @ ys) s = run ys (run xs s)"
  by (induction xs arbitrary: s) simp_all

lemma isr_terminal: "terminal s \<Longrightarrow> isr e s = s"
  by (cases e) (auto simp: terminal_def isr_defs)

lemma run_terminal: "terminal s \<Longrightarrow> run evs s = s"
  by (induction evs) (simp_all add: isr_terminal)

lemma count_ovf_simps [simp]:
  "count_ovf [] = 0"
  "count_ovf (Tim0_Ovf # evs) = Suc (count_ovf evs)"
  "count_ovf (Int0 # evs) = count_ovf evs"
  "count_ovf (Tim0_CompA p # evs) = count_ovf evs"
  by (simp_all add: count_ovf_def)

lemma ovf_idle_below:
  "g_readDataState s = Read_Idle \<Longrightarrow> unat (g_idleTimeoutCount s) < 5 \<Longrightarrow>
   TIM0_OVF_vect s = s\<lparr> g_idleTimeoutCount := g_idleTimeoutCount s + 1 \<rparr>"
  apply (simp add: isr_defs MAXTIMEOUTCOUNT_def Let_def)
  apply (simp add: word_less_nat_alt unat_word_ariths)
  done

lemma ovf_idle_at:
  "g_readDataState s = Read_Idle \<Longrightarrow> unat (g_idleTimeoutCount s) = 5 \<Longrightarrow>
   g_readDataState (TIM0_OVF_vect s) = Read_Error \<and> g_idleTimeoutCount (TIM0_OVF_vect s) = 0"
  apply (simp add: isr_defs MAXTIMEOUTCOUNT_def Let_def)
  apply (simp add: word_less_nat_alt unat_word_ariths)
  done

lemma compa_idle: "g_readDataState s = Read_Idle \<Longrightarrow> TIM0_COMPA_vect p s = s"
  by (simp add: isr_defs)

lemma quiet_run:
  "Int0 \<notin> set evs \<Longrightarrow> g_readDataState s = Read_Idle \<Longrightarrow> unat (g_idleTimeoutCount s) \<le> 5 \<Longrightarrow>
   (if unat (g_idleTimeoutCount s) + count_ovf evs \<le> 5
    then run evs s = s\<lparr> g_idleTimeoutCount := g_idleTimeoutCount s + of_nat (count_ovf evs) \<rparr>
    else g_readDataState (run evs s) = Read_Error \<and> g_idleTimeoutCount (run evs s) = 0)"
proof (induction evs arbitrary: s)
  case Nil
  then show ?case by simp
next
  case (Cons e evs)
  show ?case
  proof (cases e)
    case Int0
    with Cons.prems show ?thesis by simp
  next
    case (Tim0_CompA p)
    with Cons.prems Cons.IH [of s] show ?thesis
      by (simp add: compa_idle)
  next
    case Tim0_Ovf
    show ?thesis
    proof (cases "unat (g_idleTimeoutCount s) < 5")
      case True
      let ?s1 = "s\<lparr> g_idleTimeoutCount := g_idleTimeoutCount s + 1 \<rparr>"
      have step: "TIM0_OVF_vect s = ?s1"
        using Cons.prems True by (simp add: ovf_idle_below)
      have u: "unat (g_idleTimeoutCount ?s1) = Suc (unat (g_idleTimeoutCount s))"
        using True by (simp add: unat_word_ariths)
      from Cons.IH [of ?s1] Cons.prems True u Tim0_Ovf step show ?thesis
        by (simp add: add.assoc)
    next
      case False
      with Cons.prems have at: "unat (g_idleTimeoutCount s) = 5" by simp
      from ovf_idle_at [OF Cons.prems(2) at]
      have "terminal (TIM0_OVF_vect s)" and "g_idleTimeoutCount (TIM0_OVF_vect s) = 0"
        and "g_readDataState (TIM0_OVF_vect s) = Read_Error"
        by (simp_all add: terminal_def)
      then show ?thesis using Tim0_Ovf at
        by (simp add: run_terminal)
    qed
  qed
qed

lemma unat_MAXTIMEOUTCOUNT [simp]: "unat MAXTIMEOUTCOUNT = 5"
  by (simp add: MAXTIMEOUTCOUNT_def)

subsection \<open>The blinking of the busy loops\<close>

lemma led_only_refl [simp]: "led_only s s"
  by (simp add: led_only_def)

lemma led_only_trans: "led_only s t \<Longrightarrow> led_only t u \<Longrightarrow> led_only s u"
  by (cases s; cases t; cases u) (auto simp: led_only_def)

lemma led_only_fields:
  assumes "led_only s t"
  shows "g_readDataState t = g_readDataState s" "g_incomingCount t = g_incomingCount s"
    "g_adcThreshold t = g_adcThreshold s" "g_idleTimeoutCount t = g_idleTimeoutCount s"
    "PUEB t = PUEB s" "DDRB t = DDRB s" "OCR0A t = OCR0A s" "TCNT0 t = TCNT0 s"
    "TCCR0B t = TCCR0B s" "EICRA t = EICRA s" "EIMSK t = EIMSK s" "ADCSRA t = ADCSRA s"
    "PRR t = PRR s"
  using assms by (cases s; cases t; simp add: led_only_def)+

lemma led_only_toggleLed: "led_only s (toggleLed s)"
  by (simp add: led_only_def toggleLed_def)

lemma led_only_turnOnLed: "led_only s (turnOnLed s)"
  by (simp add: led_only_def turnOnLed_def)

lemma led_only_turnOffLed: "led_only s (turnOffLed s)"
  by (simp add: led_only_def turnOffLed_def)

lemma led_only_blink: "led_only s (incrementAndBlinkLed s)"
  by (simp add: led_only_def incrementAndBlinkLed_def toggleLed_def Let_def)

lemma led_only_blinks: "led_only s ((incrementAndBlinkLed ^^ n) s)"
  by (induction n) (auto intro: led_only_trans led_only_blink)

lemma led_only_isr: "led_only s t \<Longrightarrow> led_only (isr e s) (isr e t)"
  by (cases e; cases "g_readDataState s"; cases s; cases t)
     (auto simp: led_only_def isr_defs Let_def)

lemma led_only_terminal: "led_only s t \<Longrightarrow> terminal t = terminal s"
  by (simp add: terminal_def led_only_fields)

lemma busy_wait_run:
  "led_only s t \<Longrightarrow>
   (if terminal (run (map snd nes) s)
    then \<exists>t'. busy_wait nes t = Some t' \<and> led_only (run (map snd nes) s) t'
    else busy_wait nes t = None)"
proof (induction nes arbitrary: s t)
  case Nil
  then show ?case
    using led_only_terminal [of s t] by (auto simp: terminal_def)
next
  case (Cons ne nes)
  show ?case
  proof (cases "terminal s")
    case True
    then have "terminal t" using Cons.prems by (simp add: led_only_terminal)
    then have "busy_wait (ne # nes) t = Some t"
      by (auto simp: terminal_def)
    with True Cons.prems run_terminal [OF True, of "map snd (ne # nes)"] show ?thesis
      by simp
  next
    case False
    then have nt: "\<not> terminal t" using Cons.prems by (simp add: led_only_terminal)
    let ?t1 = "isr (snd ne) ((incrementAndBlinkLed ^^ fst ne) t)"
    have "led_only s ((incrementAndBlinkLed ^^ fst ne) t)"
      using Cons.prems led_only_blinks led_only_trans by blast
    then have rel: "led_only (isr (snd ne) s) ?t1"
      by (rule led_only_isr)
    have bw: "busy_wait (ne # nes) t = busy_wait nes ?t1"
      using nt by (simp add: terminal_def)
    from Cons.IH [OF rel] bw show ?thesis
      by simp
  qed
qed


subsection \<open>The client's writes to the data line\<close>

lemma c_blink_wire: "wire (c_incrementAndBlinkLed s) = wire s"
  by (simp add: c_incrementAndBlinkLed_def c_toggleLed_def Let_def)

lemma c_blink_pb2: "c_PORTB (c_incrementAndBlinkLed s) AND 4 = c_PORTB s AND 4"
  by (simp add: c_incrementAndBlinkLed_def c_toggleLed_def Let_def)

lemma c_blinks_wire [simp]: "wire ((c_incrementAndBlinkLed ^^ n) s) = wire s"
  by (induction n) (simp_all add: c_blink_wire)

lemma c_blinks_pb2 [simp]: "c_PORTB ((c_incrementAndBlinkLed ^^ n) s) AND 4 = c_PORTB s AND 4"
  by (induction n) (simp_all add: c_blink_pb2)

lemma pb2_low_wire [simp]: "wire (pb2_low s) = wire s @ [False]"
  by (simp add: pb2_low_def Let_def)

lemma pb2_high_wire [simp]: "wire (pb2_high s) = wire s @ [True]"
  by (simp add: pb2_high_def Let_def)

lemma pb2_low_pin [simp]: "c_PORTB (pb2_low s) AND 4 = 0"
  by (simp add: pb2_low_def Let_def)

lemma pb2_high_pin [simp]: "c_PORTB (pb2_high s) AND 4 = 4"
  by (simp add: pb2_high_def Let_def)

lemma triggerRead_wire [simp]: "wire (triggerRead s) = wire s @ [False, True]"
  by (simp add: triggerRead_def Let_def)

lemma transmitOneTick_wire [simp]: "wire (transmitOneTick s) = wire s @ [False, True]"
  by (simp add: transmitOneTick_def Let_def)

lemma transmit_ticks_wire:
  "wire ((transmitOneTick ^^ n) s) = wire s @ concat (replicate n [False, True])"
  by (induction n arbitrary: s) (simp_all add: funpow_swap1)

lemma c_led_wire [simp]: "wire (c_turnOnLed s) = wire s" "wire (c_turnOffLed s) = wire s"
  by (simp_all add: c_turnOnLed_def c_turnOffLed_def)

lemma c_led_pb2 [simp]:
  "c_PORTB (c_turnOnLed s) AND 4 = c_PORTB s AND 4"
  "c_PORTB (c_turnOffLed s) AND 4 = c_PORTB s AND 4"
  by (simp_all add: c_turnOnLed_def c_turnOffLed_def)

lemma encode_valid_wire:
  "\<not> (V > c_MAXVOLTAGEADCVALUE \<or> V = 0) \<Longrightarrow>
   written s (encode V s) = [False, True] @ concat (replicate (unat V) [False, True])"
  by (simp add: encode_def written_def Let_def transmit_ticks_wire)

lemma encode_invalid_wire:
  "V > c_MAXVOLTAGEADCVALUE \<or> V = 0 \<Longrightarrow>
   written s (encode V s) = [False] \<and> c_PORTB (encode V s) AND 4 = 0"
  by (simp add: encode_def written_def outputDataError_def)

subsection \<open>Reception under nominal timing\<close>

lemma start_reading_fields:
  "g_readDataState (start_reading m) = Read_Idle"
  "g_idleTimeoutCount (start_reading m) = 0"
  "EICRA (start_reading m) = 0" "EIMSK (start_reading m) = 1"
  by (simp_all add: start_reading_def resetAndStartTimer_def resetReadStateToIdle_def)

lemma trigger_seen:
  assumes "g_readDataState s = Read_Idle" "EICRA s = 0" "EIMSK s = 1"
  shows "g_readDataState (line_change True False s) = Read_VerifyTrigger"
  using assms by (simp add: line_change_def int0_fires_def isr_defs)

lemma trigger_verified:
  assumes "g_readDataState s = Read_VerifyTrigger"
  shows "g_readDataState (TIM0_COMPA_vect (pin_level False) s) = Read_Reading"
    "g_incomingCount (TIM0_COMPA_vect (pin_level False) s) = 0"
    "EICRA (TIM0_COMPA_vect (pin_level False) s) = 2"
    "EIMSK (TIM0_COMPA_vect (pin_level False) s) = 1"
  using assms by (simp_all add: isr_defs)

lemma reading_rise:
  assumes "g_readDataState s = Read_Reading" "EICRA s = 2" "EIMSK s = 1"
  shows "line_change False True s = s"
  using assms by (simp add: line_change_def int0_fires_def)

lemma reading_fall:
  assumes "g_readDataState s = Read_Reading" "EICRA s = 2" "EIMSK s = 1"
  shows "line_change True False s = s\<lparr> g_incomingCount := g_incomingCount s + 1 \<rparr>"
  using assms by (simp add: line_change_def int0_fires_def isr_defs)

lemma reading_pairs:
  assumes "g_readDataState s = Read_Reading" "EICRA s = 2" "EIMSK s = 1"
  shows "line_changes True (concat (replicate n [False, True])) s =
         s\<lparr> g_incomingCount := g_incomingCount s + of_nat n \<rparr>"
  using assms
proof (induction n arbitrary: s)
  case 0
  then show ?case by simp
next
  case (Suc n)
  let ?s1 = "s\<lparr> g_incomingCount := g_incomingCount s + 1 \<rparr>"
  have f: "line_change True False s = ?s1"
    using Suc.prems by (rule reading_fall)
  have r: "line_change False True ?s1 = ?s1"
    using Suc.prems by (simp add: reading_rise)
  from Suc.IH [of ?s1] Suc.prems f r show ?case
    by (simp add: add.assoc add.commute)
qed

lemma last_frame: "last ([False, True] @ concat (replicate n [False, True])) = True"
  by (induction n) simp_all

lemma reading_done:
  assumes "g_readDataState s = Read_Reading"
  shows "g_readDataState (TIM0_COMPA_vect (pin_level l) s) = (if l then Read_Timeout else Read_Error)"
    "g_incomingCount (TIM0_COMPA_vect (pin_level l) s) = g_incomingCount s"
  using assms by (simp_all add: isr_defs)

lemma receive_frame:
  assumes "g_readDataState s = Read_Idle" "EICRA s = 0" "EIMSK s = 1"
  shows "g_readDataState (receive_nominal ([False, True] @ concat (replicate n [False, True])) s)
           = Read_Timeout"
    and "g_incomingCount (receive_nominal ([False, True] @ concat (replicate n [False, True])) s)
           = of_nat n"
proof -
  let ?ws = "[False, True] @ concat (replicate n [False, True])"
  let ?s1 = "line_change True False s"
  let ?s2 = "TIM0_COMPA_vect (pin_level False) ?s1"
  let ?s3 = "?s2\<lparr> g_incomingCount := g_incomingCount ?s2 + of_nat n \<rparr>"
  have v: "g_readDataState ?s1 = Read_VerifyTrigger"
    using assms by (rule trigger_seen)
  note rd = trigger_verified [OF v]
  have "line_changes False (True # concat (replicate n [False, True])) ?s2 =
        line_changes True (concat (replicate n [False, True])) ?s2"
    using rd by (simp add: reading_rise)
  also have "\<dots> = ?s3"
    using rd by (simp add: reading_pairs)
  finally have s3: "line_changes False (True # concat (replicate n [False, True])) ?s2 = ?s3" .
  have rn: "receive_nominal ?ws s = TIM0_COMPA_vect (pin_level True) ?s3"
    unfolding receive_nominal_def using s3 last_frame [of n]
    by (simp add: Let_def)
  have st3: "g_readDataState ?s3 = Read_Reading" and c3: "g_incomingCount ?s3 = of_nat n"
    using rd by simp_all
  from reading_done [OF st3, of True] rn c3
  show "g_readDataState (receive_nominal ?ws s) = Read_Timeout"
    and "g_incomingCount (receive_nominal ?ws s) = of_nat n"
    by simp_all
qed

lemma receive_hold:
  assumes "g_readDataState s = Read_Idle" "EICRA s = 0" "EIMSK s = 1"
  shows "g_readDataState (receive_nominal [False] s) = Read_Error"
proof -
  let ?s1 = "line_change True False s"
  have v: "g_readDataState ?s1 = Read_VerifyTrigger"
    using assms by (rule trigger_seen)
  note rd = trigger_verified [OF v]
  from reading_done(1) [OF rd(1), of False] show ?thesis
    by (simp add: receive_nominal_def Let_def)
qed

subsection \<open>Analog readings\<close>

lemma adc_only_refl [simp]: "adc_only s s"
  by (simp add: adc_only_def)

lemma adc_only_trans: "adc_only s t \<Longrightarrow> adc_only t u \<Longrightarrow> adc_only s u"
  by (cases s; cases t; cases u) (auto simp: adc_only_def)

lemma led_only_adc_only: "led_only s t \<Longrightarrow> adc_only s t"
  by (cases s; cases t) (auto simp: adc_only_def led_only_def)

lemma adc_only_fields:
  assumes "adc_only s t"
  shows "g_readDataState t = g_readDataState s" "g_incomingCount t = g_incomingCount s"
    "g_adcThreshold t = g_adcThreshold s" "g_idleTimeoutCount t = g_idleTimeoutCount s"
    "PUEB t = PUEB s" "DDRB t = DDRB s" "OCR0A t = OCR0A s" "TCNT0 t = TCNT0 s"
    "TCCR0B t = TCCR0B s" "EICRA t = EICRA s" "EIMSK t = EIMSK s" "PRR t = PRR s"
  using assms by (cases s; cases t; simp add: adc_only_def)+

lemma getAdc_value [simp]: "fst (getAdcValueBusyWait r s) = adcValue (snd r)"
  by (simp add: getAdcValueBusyWait_def Let_def)

lemma getAdc_state: "adc_only s (snd (getAdcValueBusyWait r s))"
proof -
  let ?s1 = "startADC s"
  let ?s2 = "(incrementAndBlinkLed ^^ fst r) ?s1"
  have a: "adc_only s ?s1" by (simp add: adc_only_def startADC_def)
  have b: "adc_only ?s1 ?s2" by (rule led_only_adc_only) (rule led_only_blinks)
  have c: "adc_only ?s2 (?s2\<lparr> ADCSRA := ADCSRA ?s2 AND NOT 0x40 \<rparr>)"
    by (simp add: adc_only_def)
  from a b c show ?thesis
    unfolding getAdcValueBusyWait_def Let_def snd_conv
    by (blast intro: adc_only_trans)
qed

lemma adc_loop_state: "adc_only s (snd (adc_loop n rd s))"
proof (induction n)
  case 0
  show ?case by simp
next
  case (Suc n)
  have "adc_only (snd (adc_loop n rd s)) (snd (getAdcValueBusyWait (rd n) (snd (adc_loop n rd s))))"
    by (rule getAdc_state)
  with Suc show ?case
    by (auto simp: split_beta intro: adc_only_trans)
qed

lemma adc_loop_value:
  "fst (adc_loop (Suc (Suc (Suc (Suc 0)))) rd s) =
     adcValue (snd (rd 0)) + adcValue (snd (rd 1)) + adcValue (snd (rd 2)) + adcValue (snd (rd 3))"
  by (simp add: split_beta eval_nat_numeral)

lemma unat_8_lt: "unat (x :: 8 word) < 256"
  using unsigned_less [of x, where 'a = nat] by simp

lemma unat_adcValue: "unat (adcValue x) = unat x"
  using unat_8_lt [of x]
  by (simp add: adcValue_def unsigned_ucast_eq take_bit_nat_eq_self)

lemma averaging_value:
  "unat (fst (getAdcValueBusyWaitWithAveraging rd s)) = spec_average rd"
proof -
  let ?a = "adcValue (snd (rd 0))" and ?b = "adcValue (snd (rd 1))"
  let ?c = "adcValue (snd (rd 2))" and ?d = "adcValue (snd (rd 3))"
  have four: "ADCITERATIONS = Suc (Suc (Suc (Suc 0)))"
    by (simp add: ADCITERATIONS_def)
  have v: "fst (getAdcValueBusyWaitWithAveraging rd s) = (?a + ?b + ?c + ?d) div 4"
    unfolding getAdcValueBusyWaitWithAveraging_def four
    by (simp add: split_beta numeral_2_eq_2 numeral_3_eq_3)
  have bounds: "unat ?a < 256" "unat ?b < 256" "unat ?c < 256" "unat ?d < 256"
    by (simp_all add: unat_adcValue unat_8_lt)
  then have "unat (?a + ?b + ?c + ?d) = unat ?a + unat ?b + unat ?c + unat ?d"
    by (simp add: unat_word_ariths)
  then show ?thesis
    by (simp add: v unat_div spec_average_def unat_adcValue)
qed

lemma averaging_state: "adc_only s (snd (getAdcValueBusyWaitWithAveraging rd s))"
  using adc_loop_state [of s ADCITERATIONS rd]
  by (simp add: getAdcValueBusyWaitWithAveraging_def split_beta)

lemma spec_average_le: "spec_average rd \<le> 255"
  using unat_8_lt [of "snd (rd 0)"] unat_8_lt [of "snd (rd 1)"] unat_8_lt [of "snd (rd 2)"]
    unat_8_lt [of "snd (rd 3)"]
  by (simp add: spec_average_def)

subsection \<open>The passes of the main loop\<close>

lemma and_not_id: "x AND m = 0 \<Longrightarrow> x AND NOT m = (x::'a::len word)"
  by (rule bit_eqI) (auto simp: bit_simps bit_eq_iff)

lemma set_bit_restore: "bit x n \<Longrightarrow> (x AND NOT (2 ^ n)) OR 2 ^ n = (x::'a::len word)"
  by (rule bit_eqI) (auto simp: bit_simps)

lemma led_bit_restore:
  fixes x :: "8 word"
  shows "x AND 2 \<noteq> 0 \<Longrightarrow> (x AND - 3) OR 2 = x" "x AND 2 = 0 \<Longrightarrow> x AND - 3 = x"
proof -
  have "x AND 2 ^ 1 \<noteq> 0 \<Longrightarrow> bit x 1"
    by (simp only: and_exp_eq_0_iff_not_bit) simp
  then have "x AND 2 \<noteq> 0 \<Longrightarrow> bit x 1" by simp
  with set_bit_restore [of x 1] show "x AND 2 \<noteq> 0 \<Longrightarrow> (x AND - 3) OR 2 = x" by simp
  from and_not_id [of x 2] show "x AND 2 = 0 \<Longrightarrow> x AND - 3 = x" by simp
qed

lemma toggle_twice: "toggleLed (toggleLed s) = s"
  by (simp add: toggleLed_def led_bit_restore)

lemma toggle_twice_pow: "((\<lambda>t. toggleLed (toggleLed t)) ^^ n) s = s"
  by (induction n) (simp_all add: toggle_twice)

lemma double_blink_id: "double_blink s = s"
  by (simp add: double_blink_def eval_nat_numeral toggle_twice)

lemma sleep_tail_eq:
  "sleep_tail s = s\<lparr> PUEB := PUEB s OR 8, DDRB := DDRB s AND NOT 8,
      ADCSRA := (ADCSRA s AND 0x7F) OR 0x80, PRR := 0 \<rparr>"
  by (simp add: sleep_tail_def turnOffClient_def Let_def toggle_twice_pow)

lemma sleep_tail_fields:
  "g_readDataState (sleep_tail s) = g_readDataState s"
  "g_incomingCount (sleep_tail s) = g_incomingCount s"
  "g_idleTimeoutCount (sleep_tail s) = g_idleTimeoutCount s"
  "g_adcThreshold (sleep_tail s) = g_adcThreshold s"
  "OCR0A (sleep_tail s) = OCR0A s" "TCNT0 (sleep_tail s) = TCNT0 s"
  "TCCR0B (sleep_tail s) = TCCR0B s" "EICRA (sleep_tail s) = EICRA s"
  "EIMSK (sleep_tail s) = EIMSK s" "PORTB (sleep_tail s) = PORTB s"
  "DDRB (sleep_tail s) = DDRB s AND NOT (BV 3)"
  by (simp_all add: sleep_tail_eq)

lemma sleep_tail_client_off [simp]: "\<not> client_powered (sleep_tail s)"
  by (simp add: client_powered_def sleep_tail_eq)

lemma led_on_sleep_tail [simp]: "led_on (sleep_tail s) = led_on s"
  by (simp add: led_on_def sleep_tail_eq)

lemma led_on_turnOnLed [simp]: "led_on (turnOnLed s)"
  by (simp add: led_on_def turnOnLed_def)

lemma led_on_turnOffLed [simp]: "\<not> led_on (turnOffLed s)"
  by (simp add: led_on_def turnOffLed_def)

lemma client_powered_led_only: "led_only s t \<Longrightarrow> client_powered t = client_powered s"
  by (simp add: client_powered_def led_only_fields)

lemma client_powered_adc_only: "adc_only s t \<Longrightarrow> client_powered t = client_powered s"
  by (simp add: client_powered_def adc_only_fields)

lemma turnOnClient_led_only:
  "led_only (s\<lparr> PUEB := PUEB s AND NOT 8, DDRB := DDRB s OR 8 \<rparr>) (turnOnClient s)"
  using led_only_blinks [of "s\<lparr> PUEB := PUEB s AND NOT 8, DDRB := DDRB s OR 8 \<rparr>" CLIENTDEBOUNCEDELAY]
  by (simp add: turnOnClient_def Let_def)

lemma start_reading_keeps:
  "g_adcThreshold (start_reading s) = g_adcThreshold s"
  "client_powered (start_reading s)"
  "g_incomingCount (start_reading s) = g_incomingCount s"
  using led_only_fields [OF turnOnClient_led_only [of s]]
  by (simp_all add: start_reading_def resetAndStartTimer_def resetReadStateToIdle_def
      client_powered_def)

lemma isr_keeps:
  "g_adcThreshold (isr e s) = g_adcThreshold s" "DDRB (isr e s) = DDRB s"
  "PUEB (isr e s) = PUEB s" "PORTB (isr e s) = PORTB s"
  by (cases e; cases "g_readDataState s"; simp add: isr_defs Let_def)+

lemma run_keeps:
  "g_adcThreshold (run evs s) = g_adcThreshold s" "DDRB (run evs s) = DDRB s"
  "PUEB (run evs s) = PUEB s" "PORTB (run evs s) = PORTB s"
  by (induction evs arbitrary: s; simp add: isr_keeps)+

lemma client_powered_run [simp]: "client_powered (run evs s) = client_powered s"
  by (simp add: client_powered_def run_keeps)

text \<open>
  The interrupt routines and the statements of the main loop outside the busy-wait write
  different variables and registers: the order in which they run makes no difference.
\<close>

lemma isr_commutes_run:
  assumes "\<And>e s. isr e (f s) = f (isr e s)"
  shows "run evs (f s) = f (run evs s)"
  by (induction evs arbitrary: s) (simp_all add: assms)

lemma isr_commutes_pow:
  assumes "\<And>s. isr e (f s) = f (isr e s)"
  shows "isr e ((f ^^ n) s) = (f ^^ n) (isr e s)"
  by (induction n) (simp_all add: assms)

lemma isr_toggleLed: "isr e (toggleLed s) = toggleLed (isr e s)"
  by (cases e; cases "g_readDataState s") (simp_all add: isr_defs toggleLed_def Let_def)

lemma isr_turnOffLed: "isr e (turnOffLed s) = turnOffLed (isr e s)"
  by (cases e; cases "g_readDataState s") (simp_all add: isr_defs turnOffLed_def Let_def)

lemma isr_turnOnLed: "isr e (turnOnLed s) = turnOnLed (isr e s)"
  by (cases e; cases "g_readDataState s") (simp_all add: isr_defs turnOnLed_def Let_def)

lemma isr_blink: "isr e (incrementAndBlinkLed s) = incrementAndBlinkLed (isr e s)"
  by (cases e; cases "g_readDataState s")
     (simp_all add: isr_defs incrementAndBlinkLed_def toggleLed_def Let_def)

lemma isr_turnOffClient: "isr e (turnOffClient s) = turnOffClient (isr e s)"
  by (cases e; cases "g_readDataState s") (simp_all add: isr_defs turnOffClient_def Let_def)

lemma isr_turnOnClient: "isr e (turnOnClient s) = turnOnClient (isr e s)"
proof -
  have "isr e (s\<lparr> PUEB := PUEB s AND NOT 8, DDRB := DDRB s OR 8 \<rparr>) =
        (isr e s)\<lparr> PUEB := PUEB (isr e s) AND NOT 8, DDRB := DDRB (isr e s) OR 8 \<rparr>"
    by (cases e; cases "g_readDataState s") (simp_all add: isr_defs Let_def)
  then show ?thesis
    by (simp add: turnOnClient_def Let_def isr_commutes_pow [of e incrementAndBlinkLed, OF isr_blink])
qed

lemma isr_getAdc:
  "isr e (snd (getAdcValueBusyWait r s)) = snd (getAdcValueBusyWait r (isr e s))"
proof -
  have a: "isr e (startADC s) = startADC (isr e s)"
    by (cases e; cases "g_readDataState s") (simp_all add: isr_defs startADC_def Let_def)
  have b: "isr e (u\<lparr> ADCSRA := ADCSRA u AND NOT 0x40 \<rparr>) =
           (isr e u)\<lparr> ADCSRA := ADCSRA (isr e u) AND NOT 0x40 \<rparr>" for u
    by (cases e; cases "g_readDataState u") (simp_all add: isr_defs Let_def)
  let ?u = "(incrementAndBlinkLed ^^ fst r) (startADC s)"
  have c: "isr e ?u = (incrementAndBlinkLed ^^ fst r) (startADC (isr e s))"
    using isr_commutes_pow [of e incrementAndBlinkLed "fst r" "startADC s", OF isr_blink]
    by (simp only: a)
  have "isr e (snd (getAdcValueBusyWait r s)) = isr e (?u\<lparr> ADCSRA := ADCSRA ?u AND NOT 0x40 \<rparr>)"
    by (simp only: getAdcValueBusyWait_def Let_def snd_conv)
  also have "\<dots> = (isr e ?u)\<lparr> ADCSRA := ADCSRA (isr e ?u) AND NOT 0x40 \<rparr>"
    by (rule b)
  also have "\<dots> = snd (getAdcValueBusyWait r (isr e s))"
    by (simp only: c getAdcValueBusyWait_def Let_def snd_conv)
  finally show ?thesis .
qed

lemma isr_sleep_tail: "isr e (sleep_tail s) = sleep_tail (isr e s)"
  by (cases e; cases "g_readDataState s") (simp_all add: isr_defs sleep_tail_eq Let_def)

lemma run_turnOnClient: "run evs (turnOnClient s) = turnOnClient (run evs s)"
  by (rule isr_commutes_run) (rule isr_turnOnClient)

lemma run_turnOffLed: "run evs (turnOffLed s) = turnOffLed (run evs s)"
  by (rule isr_commutes_run) (rule isr_turnOffLed)

lemma run_double_blink: "run evs (double_blink s) = double_blink (run evs s)"
  by (simp add: double_blink_id)

lemma run_turnOffClient: "run evs (turnOffClient s) = turnOffClient (run evs s)"
  by (rule isr_commutes_run) (rule isr_turnOffClient)

lemma run_sleep_tail: "run evs (sleep_tail s) = sleep_tail (run evs s)"
  by (rule isr_commutes_run) (rule isr_sleep_tail)

lemma run_getAdc:
  "run evs (snd (getAdcValueBusyWait r s)) = snd (getAdcValueBusyWait r (run evs s))"
  by (induction evs arbitrary: s) (simp_all add: isr_getAdc)

text \<open>
  Between \<open>resetReadStateToIdle\<close> and \<open>resetAndStartTimer\<close>: a routine that runs there
  leaves the same state as one that runs right after both, as the first interrupt of
  the busy-wait.
\<close>

lemma isr_before_timer_start:
  "resetAndStartTimer (isr e (resetReadStateToIdle s)) =
   isr e (resetAndStartTimer (resetReadStateToIdle s))"
proof -
  have g: "(y AND NOT k) OR k = y OR k" for y k :: "8 word"
    by (rule bit_eqI) (auto simp: bit_simps)
  have fb: "(0xFB :: 8 word) = NOT 4"
    by simp
  have m: "(x AND 0xFB) OR 4 = x OR 4" "((x OR 4) AND 0xFB) OR 4 = x OR 4" for x :: "8 word"
    using g [of x 4] g [of "x OR 4" 4] by (simp_all only: fb or.assoc or.idem)
  show ?thesis
    by (cases e)
       (simp_all add: isr_defs resetReadStateToIdle_def Let_def m MAXTIMEOUTCOUNT_def)
qed

lemma decoder_view_adc_only: "adc_only s t \<Longrightarrow> decoder_view t = decoder_view s"
  by (simp add: decoder_view_def adc_only_fields)

lemma decoder_view_sleep_tail [simp]: "decoder_view (sleep_tail s) = decoder_view s"
  by (simp add: decoder_view_def sleep_tail_fields)

lemma decoder_view_turnOffLed [simp]: "decoder_view (turnOffLed s) = decoder_view s"
  by (simp add: decoder_view_def turnOffLed_def)

lemma blinks_count:
  "g_ledBlinkCount ((incrementAndBlinkLed ^^ n) s) = g_ledBlinkCount s + of_nat n"
  by (induction n) (simp_all add: incrementAndBlinkLed_def toggleLed_def Let_def)

lemma run_blink_count: "g_ledBlinkCount (run evs s) = g_ledBlinkCount s"
proof (induction evs arbitrary: s)
  case Nil
  show ?case by simp
next
  case (Cons e evs)
  have "g_ledBlinkCount (isr e s) = g_ledBlinkCount s"
    by (cases e; cases "g_readDataState s") (simp_all add: isr_defs Let_def)
  with Cons show ?case by simp
qed

lemma low_pass_blink_count:
  "g_ledBlinkCount (sleep_tail (double_blink (turnOffLed (snd (getAdcValueBusyWait r (run evs s))))))
     = g_ledBlinkCount s + of_nat (fst r)"
  by (simp add: sleep_tail_eq double_blink_id turnOffLed_def getAdcValueBusyWait_def Let_def
      blinks_count startADC_def run_blink_count)

lemma last_low_voltage_states:
  "last (low_voltage_states s) = sleep_tail (double_blink (turnOffLed s))"
  by (simp add: low_voltage_states_def Let_def)

lemma low_voltage_states_client:
  "\<forall>t\<in>set (low_voltage_states s). client_powered t \<longrightarrow> client_powered s"
  by (simp add: low_voltage_states_def Let_def double_blink_id client_powered_def
      turnOffLed_def turnOffClient_def sleep_tail_eq)

lemma busy_wait_keeps:
  "busy_wait nes s = Some t \<Longrightarrow>
   terminal t \<and> g_adcThreshold t = g_adcThreshold s \<and> client_powered t = client_powered s"
proof (induction nes arbitrary: s)
  case Nil
  then show ?case by (auto simp: terminal_def split: if_splits)
next
  case (Cons ne nes)
  show ?case
  proof (cases "terminal s")
    case True
    with Cons.prems show ?thesis by (auto simp: terminal_def)
  next
    case False
    let ?s1 = "(incrementAndBlinkLed ^^ fst ne) s"
    have l: "led_only s ?s1" by (rule led_only_blinks)
    from False Cons.prems have "busy_wait nes (isr (snd ne) ?s1) = Some t"
      by (simp add: terminal_def)
    from Cons.IH [OF this] led_only_fields(3,6) [OF l] show ?thesis
      by (simp add: isr_keeps client_powered_def)
  qed
qed

lemma charge_decision_error:
  assumes "g_readDataState s = Read_Error"
  shows "charge_decision rd s = (Slept, sleep_tail (turnOnLed s))"
  using assms by (simp add: charge_decision_def)

lemma charge_decision_timeout:
  assumes "g_readDataState s = Read_Timeout"
    and "g_adcThreshold s = ADCTHRESHOLDHI \<or> g_adcThreshold s = ADCTHRESHOLDLOW"
  shows "\<exists>s1. adc_only s s1 \<and> charge_decision rd s =
     (if unat (g_incomingCount s) < spec_average rd + unat (g_adcThreshold s)
         \<and> unat (g_incomingCount s) < 232
      then (Retry, s1\<lparr> g_adcThreshold := ADCTHRESHOLDHI \<rparr>)
      else (Slept, sleep_tail (turnOffLed (s1\<lparr> g_adcThreshold := ADCTHRESHOLDLOW \<rparr>))))"
proof -
  let ?r = "fst (getAdcValueBusyWaitWithAveraging rd s)"
  let ?s1 = "snd (getAdcValueBusyWaitWithAveraging rd s)"
  have a: "adc_only s ?s1" by (rule averaging_state)
  note f = adc_only_fields(2,3) [OF a]
  have r: "unat ?r = spec_average rd" by (rule averaging_value)
  have "unat (g_adcThreshold s) \<le> 7"
    using assms(2) by (auto simp: ADCTHRESHOLDHI_def ADCTHRESHOLDLOW_def)
  with spec_average_le [of rd] r
  have sum: "unat (?r + g_adcThreshold s) = spec_average rd + unat (g_adcThreshold s)"
    by (simp add: unat_word_ariths)
  have c1: "(g_incomingCount s < ?r + g_adcThreshold s) =
            (unat (g_incomingCount s) < spec_average rd + unat (g_adcThreshold s))"
    by (simp add: word_less_nat_alt sum)
  have c2: "(g_incomingCount s < MAXVOLTAGEADCVALUE) = (unat (g_incomingCount s) < 232)"
    by (simp add: word_less_nat_alt MAXVOLTAGEADCVALUE_def)
  have "charge_decision rd s =
     (if unat (g_incomingCount s) < spec_average rd + unat (g_adcThreshold s)
         \<and> unat (g_incomingCount s) < 232
      then (Retry, ?s1\<lparr> g_adcThreshold := ADCTHRESHOLDHI \<rparr>)
      else (Slept, sleep_tail (turnOffLed (?s1\<lparr> g_adcThreshold := ADCTHRESHOLDLOW \<rparr>))))"
    using assms(1) f c1 c2 by (simp add: charge_decision_def split_beta)
  with a show ?thesis by blast
qed

lemma main_loop_body_low:
  assumes "\<not> adcValue (snd (adc_first inp)) > MINVOLTAGEADCVALUE"
  shows "main_loop_body inp s =
     Some (Slept, sleep_tail (double_blink (turnOffLed
       (snd (getAdcValueBusyWait (adc_first inp) (run (stray inp) s))))))"
  using assms by (simp add: main_loop_body_def split_beta last_low_voltage_states)

lemma main_loop_body_read:
  assumes "adcValue (snd (adc_first inp)) > MINVOLTAGEADCVALUE"
  shows "main_loop_body inp s =
     map_option (charge_decision (adc_avg inp))
       (busy_wait (interrupts inp)
          (start_reading (snd (getAdcValueBusyWait (adc_first inp) (run (stray inp) s)))))"
  using assms by (simp add: main_loop_body_def split_beta split: option.split)

lemma pass_entry_threshold:
  "g_adcThreshold (snd (getAdcValueBusyWait r (run evs s))) = g_adcThreshold s"
  using adc_only_fields(3) [OF getAdc_state, of r "run evs s"] by (simp add: run_keeps)

lemma run_edges:
  "g_readDataState s = Read_Reading \<Longrightarrow>
   run (replicate n Int0) s = s\<lparr> g_incomingCount := g_incomingCount s + of_nat n \<rparr>"
proof (induction n arbitrary: s)
  case 0
  then show ?case by simp
next
  case (Suc n)
  let ?s1 = "s\<lparr> g_incomingCount := g_incomingCount s + 1 \<rparr>"
  have "INT0_vect s = ?s1" using Suc.prems by (simp add: isr_defs)
  with Suc.IH [of ?s1] Suc.prems show ?case
    by (simp add: add.assoc add.commute)
qed

lemma run_frame_events:
  assumes "g_readDataState s = Read_Idle"
  shows "g_readDataState (run (frame_events n) s) = Read_Timeout"
    and "g_incomingCount (run (frame_events n) s) = of_nat n"
proof -
  let ?s2 = "TIM0_COMPA_vect 0 (INT0_vect s)"
  have rd: "g_readDataState ?s2 = Read_Reading" "g_incomingCount ?s2 = 0"
    using assms by (simp_all add: isr_defs readPinB2_def)
  have "run (frame_events n) s = TIM0_COMPA_vect 4 (run (replicate n Int0) ?s2)"
    by (simp add: frame_events_def run_append)
  also have "\<dots> = TIM0_COMPA_vect 4 (?s2\<lparr> g_incomingCount := of_nat n \<rparr>)"
    using run_edges [OF rd(1), of n] rd(2) by simp
  finally have r: "run (frame_events n) s = TIM0_COMPA_vect 4 (?s2\<lparr> g_incomingCount := of_nat n \<rparr>)" .
  show "g_readDataState (run (frame_events n) s) = Read_Timeout"
    and "g_incomingCount (run (frame_events n) s) = of_nat n"
    using rd(1) by (simp_all add: r isr_defs readPinB2_def)
qed

lemma receive_nominal_as_events:
  assumes "g_readDataState s = Read_Idle" "EICRA s = 0" "EIMSK s = 1"
  shows "receive_nominal ([False, True] @ concat (replicate n [False, True])) s =
         run (frame_events n) s"
proof -
  let ?s2 = "TIM0_COMPA_vect 0 (INT0_vect s)"
  have lc: "line_change True False s = INT0_vect s"
    using assms by (simp add: line_change_def int0_fires_def)
  have rd: "g_readDataState ?s2 = Read_Reading" "EICRA ?s2 = 2" "EIMSK ?s2 = 1"
    using assms by (simp_all add: isr_defs readPinB2_def)
  have "line_changes False (True # concat (replicate n [False, True])) ?s2 =
        line_changes True (concat (replicate n [False, True])) ?s2"
    using rd by (simp add: reading_rise)
  also have "\<dots> = ?s2\<lparr> g_incomingCount := g_incomingCount ?s2 + of_nat n \<rparr>"
    using rd by (rule reading_pairs)
  also have "\<dots> = run (replicate n Int0) ?s2"
    using run_edges [OF rd(1), of n] by simp
  finally have mid: "line_changes False (True # concat (replicate n [False, True])) ?s2 =
      run (replicate n Int0) ?s2" .
  have "receive_nominal ([False, True] @ concat (replicate n [False, True])) s =
        TIM0_COMPA_vect 4 (run (replicate n Int0) ?s2)"
    unfolding receive_nominal_def using lc mid last_frame [of n]
    by (simp add: Let_def pin_level_def)
  then show ?thesis
    by (simp add: frame_events_def run_append)
qed

lemma busy_wait_frame:
  assumes "g_readDataState s = Read_Idle"
  shows "\<exists>t. busy_wait (map (Pair 0) (frame_events n)) s = Some t \<and>
             g_readDataState t = Read_Timeout \<and> g_incomingCount t = of_nat n"
proof -
  have m: "map snd (map (Pair (0::nat)) (frame_events n)) = frame_events n"
    by (simp add: comp_def)
  note r = run_frame_events [OF assms, of n]
  then have "terminal (run (frame_events n) s)" by (simp add: terminal_def)
  with busy_wait_run [of s s "map (Pair 0) (frame_events n)"] m
  obtain t where t: "busy_wait (map (Pair 0) (frame_events n)) s = Some t"
      "led_only (run (frame_events n) s) t"
    by auto
  from led_only_fields(1,2) [OF t(2)] r t(1) show ?thesis by simp
qed

lemma busy_wait_hold:
  assumes "g_readDataState s = Read_Idle"
  shows "\<exists>t. busy_wait [(0, Int0), (0, Tim0_CompA 0), (0, Tim0_CompA 0)] s = Some t \<and>
             g_readDataState t = Read_Error"
  using assms by (simp add: isr_defs readPinB2_def)

lemma adcValue_above: "(MINVOLTAGEADCVALUE < adcValue x) = (163 < unat x)"
  by (simp add: word_less_nat_alt unat_adcValue MINVOLTAGEADCVALUE_def)

lemma thr_led [simp]:
  "g_adcThreshold (turnOffLed s) = g_adcThreshold s"
  "g_adcThreshold (turnOnLed s) = g_adcThreshold s"
  by (simp_all add: turnOffLed_def turnOnLed_def)

lemma pass_timeout:
  assumes above: "163 < unat (snd (adc_first inp))"
    and bw: "busy_wait (interrupts inp)
               (start_reading (snd (getAdcValueBusyWait (adc_first inp) (run (stray inp) s)))) = Some s5"
    and tmo: "g_readDataState s5 = Read_Timeout"
    and thr: "g_adcThreshold s = 7 \<or> g_adcThreshold s = 4"
  shows "\<exists>s'. main_loop_body inp s =
           Some (if unat (g_incomingCount s5) < spec_average (adc_avg inp) + unat (g_adcThreshold s)
                    \<and> unat (g_incomingCount s5) < 232 then Retry else Slept, s') \<and>
         (if unat (g_incomingCount s5) < spec_average (adc_avg inp) + unat (g_adcThreshold s)
              \<and> unat (g_incomingCount s5) < 232
          then client_powered s' \<and> g_adcThreshold s' = 7
          else \<not> client_powered s' \<and> g_adcThreshold s' = 4 \<and> \<not> led_on s')"
proof -
  let ?s1 = "snd (getAdcValueBusyWait (adc_first inp) (run (stray inp) s))"
  have t1: "g_adcThreshold ?s1 = g_adcThreshold s"
    by (rule pass_entry_threshold)
  from busy_wait_keeps [OF bw]
  have k: "g_adcThreshold s5 = g_adcThreshold s" "client_powered s5"
    by (simp_all add: start_reading_keeps t1)
  have body: "main_loop_body inp s = Some (charge_decision (adc_avg inp) s5)"
    using above bw by (simp add: main_loop_body_read adcValue_above)
  have thr5: "g_adcThreshold s5 = ADCTHRESHOLDHI \<or> g_adcThreshold s5 = ADCTHRESHOLDLOW"
    using thr k(1) by (simp add: ADCTHRESHOLDHI_def ADCTHRESHOLDLOW_def)
  from charge_decision_timeout [OF tmo thr5, of "adc_avg inp"]
  obtain s6 where s6: "adc_only s5 s6" and cd: "charge_decision (adc_avg inp) s5 =
     (if unat (g_incomingCount s5) < spec_average (adc_avg inp) + unat (g_adcThreshold s5)
         \<and> unat (g_incomingCount s5) < 232
      then (Retry, s6\<lparr> g_adcThreshold := ADCTHRESHOLDHI \<rparr>)
      else (Slept, sleep_tail (turnOffLed (s6\<lparr> g_adcThreshold := ADCTHRESHOLDLOW \<rparr>))))"
    by blast
  have p6: "client_powered (s6\<lparr> g_adcThreshold := ADCTHRESHOLDHI \<rparr>)"
    using client_powered_adc_only [OF s6] k(2) by (simp add: client_powered_def)
  show ?thesis
    using body cd k(1) p6
    by (simp add: sleep_tail_fields(4) ADCTHRESHOLDHI_def ADCTHRESHOLDLOW_def)
qed

lemma pass_low:
  assumes low: "unat (snd (adc_first inp)) \<le> 163"
  shows "\<exists>s'. main_loop_body inp s = Some (Slept, s') \<and> \<not> client_powered s' \<and>
           g_adcThreshold s' = g_adcThreshold s"
proof -
  have n: "\<not> MINVOLTAGEADCVALUE < adcValue (snd (adc_first inp))"
    using low by (simp add: adcValue_above)
  show ?thesis
    by (simp add: main_loop_body_low [OF n] sleep_tail_fields(4) double_blink_id
        pass_entry_threshold)
qed

lemma charge_decision_step:
  assumes "terminal s" "client_powered s"
  shows "case fst (charge_decision rd s) of
           Retry \<Rightarrow> g_adcThreshold (snd (charge_decision rd s)) = ADCTHRESHOLDHI \<and>
                    client_powered (snd (charge_decision rd s))
         | Slept \<Rightarrow> \<not> client_powered (snd (charge_decision rd s)) \<and>
             (g_adcThreshold (snd (charge_decision rd s)) = g_adcThreshold s \<or>
              g_adcThreshold (snd (charge_decision rd s)) = ADCTHRESHOLDLOW \<and>
              g_readDataState (snd (charge_decision rd s)) = Read_Timeout)"
proof (cases "g_readDataState s = Read_Timeout")
  case True
  let ?s1 = "snd (getAdcValueBusyWaitWithAveraging rd s)"
  have a: "adc_only s ?s1" by (rule averaging_state)
  have p: "client_powered (?s1\<lparr> g_adcThreshold := ADCTHRESHOLDHI \<rparr>)"
    using client_powered_adc_only [OF a] assms(2) by (simp add: client_powered_def)
  have st: "g_readDataState ?s1 = Read_Timeout"
    using adc_only_fields(1) [OF a] True by simp
  show ?thesis
    using True p st
    by (simp add: charge_decision_def split_beta sleep_tail_fields turnOffLed_def)
next
  case False
  then show ?thesis
    by (simp add: charge_decision_def sleep_tail_fields turnOnLed_def)
qed

lemma pass_step:
  assumes "main_loop_body inp s = Some r"
  shows "case fst r of
           Retry \<Rightarrow> g_adcThreshold (snd r) = ADCTHRESHOLDHI \<and> client_powered (snd r)
         | Slept \<Rightarrow> \<not> client_powered (snd r) \<and>
             (g_adcThreshold (snd r) = g_adcThreshold s \<or>
              g_adcThreshold (snd r) = ADCTHRESHOLDLOW \<and> g_readDataState (snd r) = Read_Timeout)"
proof (cases "163 < unat (snd (adc_first inp))")
  case True
  let ?s1 = "snd (getAdcValueBusyWait (adc_first inp) (run (stray inp) s))"
  have t1: "g_adcThreshold ?s1 = g_adcThreshold s"
    by (rule pass_entry_threshold)
  from assms True obtain s5 where bw: "busy_wait (interrupts inp) (start_reading ?s1) = Some s5"
    and r: "r = charge_decision (adc_avg inp) s5"
    by (auto simp: main_loop_body_read adcValue_above)
  from busy_wait_keeps [OF bw]
  have k: "terminal s5" "g_adcThreshold s5 = g_adcThreshold s" "client_powered s5"
    by (simp_all add: start_reading_keeps t1)
  from charge_decision_step [OF k(1) k(3), of "adc_avg inp"] show ?thesis
    unfolding r k(2) .
next
  case False
  then have low: "unat (snd (adc_first inp)) \<le> 163" by simp
  from pass_low [OF low, of s] assms show ?thesis
    by auto
qed

lemma passes_threshold_values:
  "main_passes inps s = Some rs \<Longrightarrow>
   g_adcThreshold s = ADCTHRESHOLDHI \<or> g_adcThreshold s = ADCTHRESHOLDLOW \<Longrightarrow>
   \<forall>r\<in>set rs. g_adcThreshold (snd r) = ADCTHRESHOLDHI \<or>
                g_adcThreshold (snd r) = ADCTHRESHOLDLOW"
proof (induction inps arbitrary: s rs)
  case Nil
  then show ?case by simp
next
  case (Cons inp inps)
  from Cons.prems(1) obtain r rs' where b: "main_loop_body inp s = Some r"
    and p: "main_passes inps (snd r) = Some rs'" and rs: "rs = r # rs'"
    by (auto split: option.splits)
  from pass_step [OF b] Cons.prems(2)
  have r: "g_adcThreshold (snd r) = ADCTHRESHOLDHI \<or> g_adcThreshold (snd r) = ADCTHRESHOLDLOW"
    by (cases "fst r") auto
  from Cons.IH [OF p r] r rs show ?case
    by simp
qed

lemma start_state: "g_adcThreshold (initializeRegisters power_on) = 7"
  by (simp add: initializeRegisters_def power_on_def ADCTHRESHOLDHI_def Let_def)

lemma spec_average_const: "spec_average (\<lambda>i. (n, 104)) = 104"
  by (simp add: spec_average_def)

section \<open>Glitch rejection\<close>

text \<open>
  C5. When the verification timer expires with the line back high (a low pulse shorter
  than the verification window), the decoder goes back to \<open>Read_Idle\<close>, the edge
  counter keeps its value and the decoder does not enter \<open>Read_Reading\<close>; the same
  holds for the whole glitch, edge interrupt and timer expiry, seen from \<open>Read_Idle\<close>.
\<close>

theorem glitch_returns_to_idle:
  assumes "readPinB2 pinb \<noteq> 0"
  shows "(g_readDataState s = Read_VerifyTrigger \<longrightarrow>
            g_readDataState (TIM0_COMPA_vect pinb s) = Read_Idle \<and>
            g_incomingCount (TIM0_COMPA_vect pinb s) = g_incomingCount s) \<and>
         (g_readDataState s = Read_Idle \<longrightarrow>
            g_readDataState (run (glitch pinb) s) = Read_Idle \<and>
            g_incomingCount (run (glitch pinb) s) = g_incomingCount s)"
  using assms
  by (simp add: glitch_def TIM0_COMPA_vect_def INT0_vect_def stopTimer_def
      resetReadStateToIdle_def resetAndStartTimer_def)

theorem glitch_returns_to_idle_witness:
  "readPinB2 4 \<noteq> 0 \<and>
   g_readDataState (INT0_vect power_on) = Read_VerifyTrigger \<and>
   g_readDataState (TIM0_COMPA_vect 4 (INT0_vect power_on)) = Read_Idle \<and>
   g_incomingCount (TIM0_COMPA_vect 4 (INT0_vect power_on)) = 0 \<and>
   g_readDataState power_on = Read_Idle \<and>
   g_readDataState (run (glitch 4) power_on) = Read_Idle \<and>
   g_incomingCount (run (glitch 4) power_on) = 0"
proof -
  have pin: "readPinB2 4 \<noteq> 0"
    by (simp add: readPinB2_def)
  have idle: "g_readDataState power_on = Read_Idle" and cnt: "g_incomingCount power_on = 0"
    by (simp_all add: power_on_def)
  have verify: "g_readDataState (INT0_vect power_on) = Read_VerifyTrigger"
    and cnt': "g_incomingCount (INT0_vect power_on) = 0"
    by (simp_all add: power_on_def INT0_vect_def stopTimer_def resetAndStartTimer_def)
  from glitch_returns_to_idle [OF pin, of "INT0_vect power_on"]
       glitch_returns_to_idle [OF pin, of power_on]
  show ?thesis
    using pin idle cnt verify cnt' by simp
qed

section \<open>Events without a transition\<close>

text \<open>
  C8. An event that arrives in a decoder state for which its interrupt routine has no
  case (an edge in \<open>Read_VerifyTrigger\<close>, \<open>Read_Timeout\<close> or \<open>Read_Error\<close>, a compare
  match in \<open>Read_Idle\<close>, \<open>Read_Timeout\<close> or \<open>Read_Error\<close>, an overflow outside
  \<open>Read_Idle\<close>) leaves the whole state as it was, so also the decoder state, the edge
  counter and the idle-timeout counter. The routines are total functions: every state
  and event has a result.
\<close>

theorem unhandled_event_is_noop:
  assumes "\<not> handled (g_readDataState s) e"
  shows "isr e s = s"
  using assms
  by (cases e; cases "g_readDataState s")
     (simp_all add: INT0_vect_def TIM0_COMPA_vect_def TIM0_OVF_vect_def)

theorem unhandled_event_is_noop_witness:
  "\<not> handled (g_readDataState (power_on\<lparr> g_readDataState := Read_Timeout, g_incomingCount := 9 \<rparr>)) Int0 \<and>
   isr Int0 (power_on\<lparr> g_readDataState := Read_Timeout, g_incomingCount := 9 \<rparr>) =
     power_on\<lparr> g_readDataState := Read_Timeout, g_incomingCount := 9 \<rparr>"
proof -
  have h: "\<not> handled (g_readDataState (power_on\<lparr> g_readDataState := Read_Timeout, g_incomingCount := 9 \<rparr>)) Int0"
    by simp
  from unhandled_event_is_noop [OF h] h show ?thesis
    by simp
qed

section \<open>Silence\<close>

text \<open>
  C6. The decoder is in \<open>Read_Idle\<close> with the idle-timeout counter at 0 (as
  \<open>resetReadStateToIdle\<close> leaves it) and no edge interrupt ever comes, only timer events.
  While at most \<open>MAXTIMEOUTCOUNT = 5\<close> overflows have come the decoder is still in
  \<open>Read_Idle\<close>, the counter holds their number and the busy-wait of \<open>main\<close> has not
  ended. Once more than 5 have come, so at the sixth, the busy-wait has ended: it
  returns a state with the decoder in \<open>Read_Error\<close> and the counter cleared.
\<close>

theorem silence_gives_error:
  assumes "g_readDataState s = Read_Idle" and "g_idleTimeoutCount s = 0"
    and "Int0 \<notin> set (map snd nes)"
  shows "(count_ovf (map snd nes) \<le> unat MAXTIMEOUTCOUNT \<longrightarrow>
            busy_wait nes s = None \<and>
            g_readDataState (run (map snd nes) s) = Read_Idle \<and>
            unat (g_idleTimeoutCount (run (map snd nes) s)) = count_ovf (map snd nes)) \<and>
         (unat MAXTIMEOUTCOUNT < count_ovf (map snd nes) \<longrightarrow>
            (\<exists>s'. busy_wait nes s = Some s' \<and> g_readDataState s' = Read_Error \<and>
                  g_idleTimeoutCount s' = 0))"
proof -
  let ?evs = "map snd nes"
  have q: "if count_ovf ?evs \<le> 5
      then run ?evs s = s\<lparr> g_idleTimeoutCount := g_idleTimeoutCount s + of_nat (count_ovf ?evs) \<rparr>
      else g_readDataState (run ?evs s) = Read_Error \<and> g_idleTimeoutCount (run ?evs s) = 0"
    using quiet_run [OF assms(3) assms(1)] assms(2) by simp
  have bw: "if terminal (run ?evs s)
      then \<exists>t'. busy_wait nes s = Some t' \<and> led_only (run ?evs s) t'
      else busy_wait nes s = None"
    using busy_wait_run [of s s nes] by simp
  show ?thesis
  proof (cases "count_ovf ?evs \<le> 5")
    case True
    with q have r: "run ?evs s = s\<lparr> g_idleTimeoutCount := of_nat (count_ovf ?evs) \<rparr>"
      using assms(2) by simp
    then have "\<not> terminal (run ?evs s)"
      using assms(1) by (simp add: terminal_def)
    with bw have "busy_wait nes s = None" by simp
    moreover have "unat (of_nat (count_ovf ?evs) :: 16 word) = count_ovf ?evs"
      using True by (simp add: unat_of_nat)
    ultimately show ?thesis
      using True r assms(1) by simp
  next
    case False
    with q have e: "g_readDataState (run ?evs s) = Read_Error"
      and z: "g_idleTimeoutCount (run ?evs s) = 0" by simp_all
    then have "terminal (run ?evs s)" by (simp add: terminal_def)
    with bw obtain t' where t': "busy_wait nes s = Some t'" "led_only (run ?evs s) t'"
      by auto
    from led_only_fields(1,4) [OF t'(2)] e z t'(1) False show ?thesis
      by simp
  qed
qed

theorem silence_gives_error_witness:
  "g_readDataState (resetReadStateToIdle power_on) = Read_Idle \<and>
   g_idleTimeoutCount (resetReadStateToIdle power_on) = 0 \<and>
   Int0 \<notin> set (map snd [(2, Tim0_Ovf), (0, Tim0_Ovf), (1, Tim0_CompA 4), (7, Tim0_Ovf),
        (0, Tim0_Ovf), (3, Tim0_Ovf), (0, Tim0_Ovf)]) \<and>
   unat MAXTIMEOUTCOUNT < count_ovf (map snd [(2, Tim0_Ovf), (0, Tim0_Ovf), (1, Tim0_CompA 4),
        (7, Tim0_Ovf), (0, Tim0_Ovf), (3, Tim0_Ovf), (0, Tim0_Ovf)]) \<and>
   (\<exists>s'. busy_wait [(2, Tim0_Ovf), (0, Tim0_Ovf), (1, Tim0_CompA 4), (7, Tim0_Ovf),
        (0, Tim0_Ovf), (3, Tim0_Ovf), (0, Tim0_Ovf)] (resetReadStateToIdle power_on) = Some s' \<and>
      g_readDataState s' = Read_Error \<and> g_idleTimeoutCount s' = 0) \<and>
   count_ovf (map snd [(2, Tim0_Ovf), (0, Tim0_Ovf), (1, Tim0_CompA 4), (7, Tim0_Ovf),
        (0, Tim0_Ovf), (3, Tim0_Ovf)]) \<le> unat MAXTIMEOUTCOUNT \<and>
   busy_wait [(2, Tim0_Ovf), (0, Tim0_Ovf), (1, Tim0_CompA 4), (7, Tim0_Ovf),
        (0, Tim0_Ovf), (3, Tim0_Ovf)] (resetReadStateToIdle power_on) = None"
proof -
  let ?s = "resetReadStateToIdle power_on"
  let ?five = "[(2::nat, Tim0_Ovf), (0, Tim0_Ovf), (1, Tim0_CompA 4), (7, Tim0_Ovf),
        (0, Tim0_Ovf), (3, Tim0_Ovf)]"
  let ?six = "?five @ [(0::nat, Tim0_Ovf)]"
  have idle: "g_readDataState ?s = Read_Idle" and zero: "g_idleTimeoutCount ?s = 0"
    by (simp_all add: resetReadStateToIdle_def)
  have q5: "Int0 \<notin> set (map snd ?five)" and q6: "Int0 \<notin> set (map snd ?six)"
    by simp_all
  have c5: "count_ovf (map snd ?five) = 5" and c6: "count_ovf (map snd ?six) = 6"
    by simp_all
  from silence_gives_error [OF idle zero q6] c6
  have six: "\<exists>s'. busy_wait ?six ?s = Some s' \<and> g_readDataState s' = Read_Error \<and>
      g_idleTimeoutCount s' = 0"
    by simp
  from silence_gives_error [OF idle zero q5] c5
  have five: "busy_wait ?five ?s = None"
    by simp
  from idle zero six five show ?thesis
    by simp
qed

section \<open>Glitches and the silence window\<close>

lemma set_trace_append: "set (trace (xs @ ys) s) = set (trace xs s) \<union> set (trace ys (run xs s))"
proof (induction xs arbitrary: s)
  case Nil
  show ?case by (cases ys) auto
next
  case (Cons x xs)
  then show ?case by auto
qed

lemma run_in_trace: "run evs s \<in> set (trace evs s)"
  by (induction evs arbitrary: s) simp_all

lemma quiet_trace:
  "Int0 \<notin> set evs \<Longrightarrow> g_readDataState s = Read_Idle \<Longrightarrow>
   unat (g_idleTimeoutCount s) + count_ovf evs \<le> 5 \<Longrightarrow>
   \<forall>t\<in>set (trace evs s). g_readDataState t = Read_Idle"
proof (induction evs arbitrary: s)
  case Nil
  then show ?case by simp
next
  case (Cons e evs)
  show ?case
  proof (cases e)
    case Int0
    with Cons.prems show ?thesis by simp
  next
    case (Tim0_CompA p)
    with Cons.prems Cons.IH [of s] show ?thesis
      by (simp add: compa_idle)
  next
    case Tim0_Ovf
    let ?s1 = "s\<lparr> g_idleTimeoutCount := g_idleTimeoutCount s + 1 \<rparr>"
    have lt: "unat (g_idleTimeoutCount s) < 5"
      using Cons.prems Tim0_Ovf by simp
    have step: "TIM0_OVF_vect s = ?s1"
      using Cons.prems lt by (simp add: ovf_idle_below)
    have u: "unat (g_idleTimeoutCount ?s1) = Suc (unat (g_idleTimeoutCount s))"
      using lt by (simp add: unat_word_ariths)
    from Cons.IH [of ?s1] Cons.prems u Tim0_Ovf step show ?thesis
      by simp
  qed
qed

lemma glitch_from_idle:
  assumes "g_readDataState s = Read_Idle" and "readPinB2 p \<noteq> 0"
  shows "g_readDataState (run (glitch p) s) = Read_Idle"
    and "g_idleTimeoutCount (run (glitch p) s) = 0"
    and "\<forall>t\<in>set (trace (glitch p) s). g_readDataState t \<noteq> Read_Error"
  using assms by (simp_all add: glitch_def isr_defs)

lemma windows_no_error:
  assumes "\<forall>w\<in>set ws. quiet_window (fst w) \<and> readPinB2 (snd w) \<noteq> 0"
    and "g_readDataState s = Read_Idle" and "g_idleTimeoutCount s = 0"
  shows "g_readDataState (run (glitch_windows ws) s) = Read_Idle \<and>
         g_idleTimeoutCount (run (glitch_windows ws) s) = 0 \<and>
         (\<forall>t\<in>set (trace (glitch_windows ws) s). g_readDataState t \<noteq> Read_Error)"
  using assms
proof (induction ws arbitrary: s)
  case Nil
  then show ?case by simp
next
  case (Cons w ws)
  let ?q = "fst w" and ?p = "snd w"
  let ?s1 = "run ?q s"
  let ?s2 = "run (glitch ?p) ?s1"
  from Cons.prems have qw: "Int0 \<notin> set ?q" "count_ovf ?q \<le> 5" and pin: "readPinB2 ?p \<noteq> 0"
    by (simp_all add: quiet_window_def)
  have tq: "\<forall>t\<in>set (trace ?q s). g_readDataState t = Read_Idle"
    using quiet_trace [OF qw(1) Cons.prems(2)] qw(2) Cons.prems(3) by simp
  from run_in_trace [of ?q s] tq have idle1: "g_readDataState ?s1 = Read_Idle" by blast
  note g = glitch_from_idle [OF idle1 pin]
  have rest: "g_readDataState (run (glitch_windows ws) ?s2) = Read_Idle \<and>
         g_idleTimeoutCount (run (glitch_windows ws) ?s2) = 0 \<and>
         (\<forall>t\<in>set (trace (glitch_windows ws) ?s2). g_readDataState t \<noteq> Read_Error)"
    using Cons.IH [of ?s2] Cons.prems(1) g(1,2) by simp
  have "set (trace (glitch_windows (w # ws)) s) =
        set (trace ?q s) \<union> set (trace (glitch ?p) ?s1) \<union> set (trace (glitch_windows ws) ?s2)"
    by (simp add: set_trace_append Un_assoc)
  with tq g(3) rest show ?case
    by (auto simp: run_append)
qed

text \<open>
  The claim C10 as worded, "a glitch arrives before the idle-timeout counter exceeds
  its maximum, so the decoder never reaches the silence Error, however long the run",
  fails: after three overflows a glitch comes and is rejected, the counter is back at 0,
  and six further overflows take the decoder to \<open>Read_Error\<close>.
\<close>

theorem glitch_then_silence_counterexample:
  "readPinB2 4 \<noteq> 0 \<and>
   g_readDataState (run [Tim0_Ovf, Tim0_Ovf, Tim0_Ovf] (resetReadStateToIdle power_on)) = Read_Idle \<and>
   g_idleTimeoutCount (run [Tim0_Ovf, Tim0_Ovf, Tim0_Ovf] (resetReadStateToIdle power_on)) = 3 \<and>
   g_readDataState (run ([Tim0_Ovf, Tim0_Ovf, Tim0_Ovf] @ glitch 4)
      (resetReadStateToIdle power_on)) = Read_Idle \<and>
   g_idleTimeoutCount (run ([Tim0_Ovf, Tim0_Ovf, Tim0_Ovf] @ glitch 4)
      (resetReadStateToIdle power_on)) = 0 \<and>
   g_readDataState (run ([Tim0_Ovf, Tim0_Ovf, Tim0_Ovf] @ glitch 4 @
        [Tim0_Ovf, Tim0_Ovf, Tim0_Ovf, Tim0_Ovf, Tim0_Ovf, Tim0_Ovf])
      (resetReadStateToIdle power_on)) = Read_Error"
  by (simp add: glitch_def isr_defs readPinB2_def power_on_def MAXTIMEOUTCOUNT_def)

text \<open>
  C10, amended. A glitch rejection (the verification timer expires with the line high)
  sets the idle-timeout counter to 0, so the silence window starts again. Hence, in a
  run from \<open>Read_Idle\<close> in which every glitch comes after a stretch of timer events with
  at most \<open>MAXTIMEOUTCOUNT = 5\<close> overflows, however many glitches there are: while the
  stretch after the last glitch has at most 5 overflows the decoder has never been in
  \<open>Read_Error\<close>; once that stretch has more than 5 overflows the decoder is in
  \<open>Read_Error\<close>. A glitch postpones the silence error by one window; it does not
  prevent it.
\<close>

theorem glitches_restart_silence_window:
  assumes "g_readDataState s = Read_Idle" and "g_idleTimeoutCount s = 0"
    and "\<forall>w\<in>set ws. quiet_window (fst w) \<and> readPinB2 (snd w) \<noteq> 0"
    and "Int0 \<notin> set rest"
  shows "(\<forall>v p. g_readDataState v = Read_VerifyTrigger \<and> readPinB2 p \<noteq> 0 \<longrightarrow>
            g_idleTimeoutCount (TIM0_COMPA_vect p v) = 0) \<and>
         (count_ovf rest \<le> unat MAXTIMEOUTCOUNT \<longrightarrow>
            (\<forall>t\<in>set (trace (glitch_windows ws @ rest) s). g_readDataState t \<noteq> Read_Error)) \<and>
         (unat MAXTIMEOUTCOUNT < count_ovf rest \<longrightarrow>
            g_readDataState (run (glitch_windows ws @ rest) s) = Read_Error)"
proof -
  have reset: "\<forall>v p. g_readDataState v = Read_VerifyTrigger \<and> readPinB2 p \<noteq> 0 \<longrightarrow>
      g_idleTimeoutCount (TIM0_COMPA_vect p v) = 0"
    by (simp add: isr_defs)
  let ?s1 = "run (glitch_windows ws) s"
  from windows_no_error [OF assms(3) assms(1) assms(2)]
  have idle1: "g_readDataState ?s1 = Read_Idle" and zero1: "g_idleTimeoutCount ?s1 = 0"
    and tr: "\<forall>t\<in>set (trace (glitch_windows ws) s). g_readDataState t \<noteq> Read_Error"
    by simp_all
  have short: "\<forall>t\<in>set (trace (glitch_windows ws @ rest) s). g_readDataState t \<noteq> Read_Error"
    if "count_ovf rest \<le> 5"
  proof -
    have "\<forall>t\<in>set (trace rest ?s1). g_readDataState t = Read_Idle"
      using quiet_trace [OF assms(4) idle1] that zero1 by simp
    with tr show ?thesis
      by (auto simp: set_trace_append)
  qed
  have long: "g_readDataState (run (glitch_windows ws @ rest) s) = Read_Error"
    if "5 < count_ovf rest"
    using quiet_run [OF assms(4) idle1] zero1 that by (simp add: run_append)
  from reset short long show ?thesis
    by simp
qed

theorem glitches_restart_silence_window_witness:
  "g_readDataState (resetReadStateToIdle power_on) = Read_Idle \<and>
   g_idleTimeoutCount (resetReadStateToIdle power_on) = 0 \<and>
   quiet_window [Tim0_Ovf, Tim0_Ovf, Tim0_Ovf, Tim0_Ovf, Tim0_Ovf] \<and> readPinB2 4 \<noteq> 0 \<and>
   count_ovf [Tim0_Ovf, Tim0_Ovf, Tim0_Ovf] \<le> unat MAXTIMEOUTCOUNT \<and>
   unat MAXTIMEOUTCOUNT < count_ovf [Tim0_Ovf, Tim0_Ovf, Tim0_Ovf, Tim0_Ovf, Tim0_Ovf, Tim0_Ovf] \<and>
   g_readDataState (INT0_vect (resetReadStateToIdle power_on)) = Read_VerifyTrigger \<and>
   g_idleTimeoutCount (TIM0_COMPA_vect 4 (INT0_vect (resetReadStateToIdle power_on))) = 0 \<and>
   g_readDataState (run (glitch_windows
       [([Tim0_Ovf, Tim0_Ovf, Tim0_Ovf, Tim0_Ovf, Tim0_Ovf], 4),
        ([Tim0_Ovf, Tim0_Ovf, Tim0_Ovf, Tim0_Ovf, Tim0_Ovf], 4)] @ [Tim0_Ovf, Tim0_Ovf, Tim0_Ovf])
     (resetReadStateToIdle power_on)) \<noteq> Read_Error \<and>
   g_readDataState (run (glitch_windows
       [([Tim0_Ovf, Tim0_Ovf, Tim0_Ovf, Tim0_Ovf, Tim0_Ovf], 4),
        ([Tim0_Ovf, Tim0_Ovf, Tim0_Ovf, Tim0_Ovf, Tim0_Ovf], 4)] @
       [Tim0_Ovf, Tim0_Ovf, Tim0_Ovf, Tim0_Ovf, Tim0_Ovf, Tim0_Ovf])
     (resetReadStateToIdle power_on)) = Read_Error"
proof -
  let ?s = "resetReadStateToIdle power_on"
  let ?q = "[Tim0_Ovf, Tim0_Ovf, Tim0_Ovf, Tim0_Ovf, Tim0_Ovf]"
  let ?ws = "[(?q, 4::8 word), (?q, 4)]"
  let ?short = "[Tim0_Ovf, Tim0_Ovf, Tim0_Ovf]"
  let ?long = "[Tim0_Ovf, Tim0_Ovf, Tim0_Ovf, Tim0_Ovf, Tim0_Ovf, Tim0_Ovf]"
  have idle: "g_readDataState ?s = Read_Idle" and zero: "g_idleTimeoutCount ?s = 0"
    by (simp_all add: resetReadStateToIdle_def)
  have pin: "readPinB2 4 \<noteq> 0"
    by (simp add: readPinB2_def)
  have q: "quiet_window ?q"
    by (simp add: quiet_window_def)
  have ws: "\<forall>w\<in>set ?ws. quiet_window (fst w) \<and> readPinB2 (snd w) \<noteq> 0"
    using q pin by simp
  have rs: "Int0 \<notin> set ?short" and rl: "Int0 \<notin> set ?long"
    by simp_all
  have cs: "count_ovf ?short \<le> unat MAXTIMEOUTCOUNT"
    and cl: "unat MAXTIMEOUTCOUNT < count_ovf ?long"
    by simp_all
  have verify: "g_readDataState (INT0_vect ?s) = Read_VerifyTrigger"
    by (simp add: isr_defs)
  note short = glitches_restart_silence_window [OF idle zero ws rs]
  note long = glitches_restart_silence_window [OF idle zero ws rl]
  from short verify pin
  have c0: "g_idleTimeoutCount (TIM0_COMPA_vect 4 (INT0_vect ?s)) = 0"
    by blast
  from short cs run_in_trace [of "glitch_windows ?ws @ ?short" ?s]
  have ne: "g_readDataState (run (glitch_windows ?ws @ ?short) ?s) \<noteq> Read_Error"
    by blast
  from long cl
  have er: "g_readDataState (run (glitch_windows ?ws @ ?long) ?s) = Read_Error"
    by blast
  from idle zero q pin cs cl verify c0 ne er show ?thesis
    by blast
qed

section \<open>Round trip\<close>

text \<open>
  C1. For every valid sample value \<open>V\<close> with \<open>1 \<le> V \<le> 237\<close>: the client encodes
  \<open>V\<close> (trigger, then \<open>V\<close> edge-pairs), the master, listening after
  \<open>start_reading\<close>, receives what the client wrote to the line under nominal timing
  and without noise, and ends in \<open>Read_Timeout\<close> with the edge counter equal to \<open>V\<close>.
\<close>

theorem round_trip:
  assumes "1 \<le> unat V" and "unat V \<le> 237"
  shows "g_readDataState (receive_nominal (written c (encode V c)) (start_reading m)) = Read_Timeout \<and>
         g_incomingCount (receive_nominal (written c (encode V c)) (start_reading m)) = V"
proof -
  have "\<not> (V > c_MAXVOLTAGEADCVALUE \<or> V = 0)"
    using assms by (auto simp: c_MAXVOLTAGEADCVALUE_def word_less_nat_alt)
  then have w: "written c (encode V c) = [False, True] @ concat (replicate (unat V) [False, True])"
    by (rule encode_valid_wire)
  from receive_frame [OF start_reading_fields(1,3,4), of "unat V" m] w show ?thesis
    by simp
qed

theorem round_trip_witness:
  "1 \<le> unat (3 :: 16 word) \<and> unat (3 :: 16 word) \<le> 237 \<and>
   written c_initial (encode 3 c_initial) = [False, True, False, True, False, True, False, True] \<and>
   g_readDataState (receive_nominal (written c_initial (encode 3 c_initial))
      (start_reading (initializeRegisters power_on))) = Read_Timeout \<and>
   g_incomingCount (receive_nominal (written c_initial (encode 3 c_initial))
      (start_reading (initializeRegisters power_on))) = 3"
proof -
  have a: "1 \<le> unat (3 :: 16 word)" and b: "unat (3 :: 16 word) \<le> 237"
    by simp_all
  have "\<not> ((3 :: 16 word) > c_MAXVOLTAGEADCVALUE \<or> (3 :: 16 word) = 0)"
    by (simp add: c_MAXVOLTAGEADCVALUE_def)
  from encode_valid_wire [OF this, of c_initial]
  have "written c_initial (encode 3 c_initial) =
      [False, True] @ concat (replicate (unat (3 :: 16 word)) [False, True])" .
  moreover have "unat (3 :: 16 word) = Suc (Suc (Suc 0))"
    by simp
  ultimately have w: "written c_initial (encode 3 c_initial) =
      [False, True, False, True, False, True, False, True]"
    by (simp add: numeral_3_eq_3)
  from round_trip [OF a b, of c_initial "initializeRegisters power_on"] a b w show ?thesis
    by simp
qed

section \<open>Error hold\<close>

text \<open>
  C4. For a sample the encoder classifies as invalid (above 237, or zero) the encoder
  writes the data line low once and nothing else, so no pulse train, and leaves the pin
  low. When the reading timeout expires in \<open>Read_Reading\<close> with the line low, the
  decoder goes to \<open>Read_Error\<close> (so not to \<open>Read_Timeout\<close>). Together: the master
  that receives the writes of an invalid sample ends in \<open>Read_Error\<close>.
\<close>

theorem invalid_sample_gives_error:
  shows "(V > c_MAXVOLTAGEADCVALUE \<or> V = 0 \<longrightarrow>
            written c (encode V c) = [False] \<and> c_PORTB (encode V c) AND BV 2 = 0 \<and>
            g_readDataState (receive_nominal (written c (encode V c)) (start_reading m))
              = Read_Error) \<and>
         (g_readDataState s = Read_Reading \<and> readPinB2 pinb = 0 \<longrightarrow>
            g_readDataState (TIM0_COMPA_vect pinb s) = Read_Error)"
proof -
  have "g_readDataState (receive_nominal [False] (start_reading m)) = Read_Error"
    using start_reading_fields(1,3,4) by (rule receive_hold)
  moreover have "g_readDataState s = Read_Reading \<and> readPinB2 pinb = 0 \<longrightarrow>
      g_readDataState (TIM0_COMPA_vect pinb s) = Read_Error"
    by (simp add: isr_defs)
  ultimately show ?thesis
    using encode_invalid_wire [of V c] by auto
qed

theorem invalid_sample_gives_error_witness:
  "(0 :: 16 word) = 0 \<and> (238 :: 16 word) > c_MAXVOLTAGEADCVALUE \<and>
   written c_initial (encode 0 c_initial) = [False] \<and>
   written c_initial (encode 238 c_initial) = [False] \<and>
   c_PORTB (encode 0 c_initial) AND BV 2 = 0 \<and>
   g_readDataState (receive_nominal (written c_initial (encode 0 c_initial))
      (start_reading (initializeRegisters power_on))) = Read_Error \<and>
   g_readDataState (TIM0_COMPA_vect 0 (INT0_vect (resetReadStateToIdle power_on)))
      = Read_Reading \<and>
   readPinB2 0 = 0 \<and>
   g_readDataState (TIM0_COMPA_vect 0
      (TIM0_COMPA_vect 0 (INT0_vect (resetReadStateToIdle power_on)))) = Read_Error"
proof -
  let ?r = "TIM0_COMPA_vect 0 (INT0_vect (resetReadStateToIdle power_on))"
  have big: "(238 :: 16 word) > c_MAXVOLTAGEADCVALUE"
    by (simp add: c_MAXVOLTAGEADCVALUE_def)
  have rd: "g_readDataState ?r = Read_Reading"
    by (simp add: isr_defs readPinB2_def)
  have pin: "readPinB2 0 = 0"
    by (simp add: readPinB2_def)
  note zero = invalid_sample_gives_error [of 0 c_initial "initializeRegisters power_on" ?r 0]
  note over = invalid_sample_gives_error [of 238 c_initial "initializeRegisters power_on" ?r 0]
  from zero have z1: "written c_initial (encode 0 c_initial) = [False]"
    and z2: "c_PORTB (encode 0 c_initial) AND BV 2 = 0"
    and z3: "g_readDataState (receive_nominal (written c_initial (encode 0 c_initial))
      (start_reading (initializeRegisters power_on))) = Read_Error"
    by blast+
  from over big have o1: "written c_initial (encode 238 c_initial) = [False]"
    by blast
  from zero rd pin have e: "g_readDataState (TIM0_COMPA_vect 0 ?r) = Read_Error"
    by blast
  from big z1 o1 z2 z3 rd pin e show ?thesis
    by blast
qed

section \<open>The charge decision\<close>

text \<open>
  C2. In a pass of the main loop (with whatever interrupt routines ran before the
  decoder was started) whose busy-wait ends with the decoder in
  \<open>Read_Timeout\<close> and the edge counter at \<open>V\<close>, with the threshold variable at one of
  its two values 7 and 4 on entry: the controller takes four fresh readings and their
  truncated average \<open>R\<close>. If \<open>V < R + threshold\<close> and \<open>V < 232\<close> the pass ends with
  \<open>continue\<close> (\<open>Retry\<close>: no sleep), the client still powered and the threshold at 7;
  otherwise it runs to its end (\<open>Slept\<close>), with the client switched off, the threshold
  at 4 and the LED off.
\<close>

theorem timeout_charge_decision:
  assumes "163 < unat (snd (adc_first inp))"
    and "busy_wait (interrupts inp)
           (start_reading (snd (getAdcValueBusyWait (adc_first inp) (run (stray inp) s)))) = Some s5"
    and "g_readDataState s5 = Read_Timeout"
    and "g_adcThreshold s = 7 \<or> g_adcThreshold s = 4"
  shows "\<exists>s'. main_loop_body inp s =
           Some (if unat (g_incomingCount s5) < spec_average (adc_avg inp) + unat (g_adcThreshold s)
                    \<and> unat (g_incomingCount s5) < 232 then Retry else Slept, s') \<and>
         (if unat (g_incomingCount s5) < spec_average (adc_avg inp) + unat (g_adcThreshold s)
              \<and> unat (g_incomingCount s5) < 232
          then client_powered s' \<and> g_adcThreshold s' = 7
          else \<not> client_powered s' \<and> g_adcThreshold s' = 4 \<and> \<not> led_on s')"
  using assms by (rule pass_timeout)

theorem timeout_charge_decision_witness:
  "163 < unat (200 :: 8 word) \<and>
   g_adcThreshold (initializeRegisters power_on) = 7 \<and>
   spec_average (\<lambda>i. (0, 104)) = 104 \<and>
   (\<exists>s'. main_loop_body \<lparr> adc_first = (0, 200), stray = [Int0], interrupts = map (Pair 0) (frame_events 100),
              adc_avg = \<lambda>i. (0, 104) \<rparr> (initializeRegisters power_on) = Some (Retry, s') \<and>
         client_powered s' \<and> g_adcThreshold s' = 7) \<and>
   (\<exists>s'. main_loop_body \<lparr> adc_first = (0, 200), stray = [], interrupts = map (Pair 0) (frame_events 120),
              adc_avg = \<lambda>i. (0, 104) \<rparr> (initializeRegisters power_on) = Some (Slept, s') \<and>
         \<not> client_powered s' \<and> g_adcThreshold s' = 4 \<and> \<not> led_on s')"
proof -
  let ?s = "initializeRegisters power_on"
  let ?i100 = "\<lparr> adc_first = (0, 200), stray = [Int0], interrupts = map (Pair 0) (frame_events 100),
              adc_avg = \<lambda>i. (0, 104) \<rparr>"
  let ?i120 = "\<lparr> adc_first = (0, 200), stray = [], interrupts = map (Pair 0) (frame_events 120),
              adc_avg = \<lambda>i. (0, 104) \<rparr>"
  let ?m = "start_reading (snd (getAdcValueBusyWait (0, 200) (run [Int0] ?s)))"
  let ?m' = "start_reading (snd (getAdcValueBusyWait (0, 200) ?s))"
  have above: "163 < unat (200 :: 8 word)" by simp
  have thr: "g_adcThreshold ?s = 7 \<or> g_adcThreshold ?s = 4"
    by (simp add: start_state)
  from busy_wait_frame [OF start_reading_fields(1), of 100]
  obtain a where a: "busy_wait (map (Pair 0) (frame_events 100)) ?m = Some a"
      "g_readDataState a = Read_Timeout" "g_incomingCount a = 100"
    by auto
  from busy_wait_frame [OF start_reading_fields(1), of 120]
  obtain b where b: "busy_wait (map (Pair 0) (frame_events 120)) ?m' = Some b"
      "g_readDataState b = Read_Timeout" "g_incomingCount b = 120"
    by auto
  from timeout_charge_decision [of ?i100 ?s a] above a thr
  have keep: "\<exists>s'. main_loop_body ?i100 ?s = Some (Retry, s') \<and>
         client_powered s' \<and> g_adcThreshold s' = 7"
    by (simp add: start_state spec_average_const)
  from timeout_charge_decision [of ?i120 ?s b] above b thr
  have stop: "\<exists>s'. main_loop_body ?i120 ?s = Some (Slept, s') \<and>
         \<not> client_powered s' \<and> g_adcThreshold s' = 4 \<and> \<not> led_on s'"
    by (simp add: start_state spec_average_const)
  from above keep stop show ?thesis
    by (simp add: start_state spec_average_const)
qed

section \<open>Decoder errors\<close>

text \<open>
  C3. In a pass of the main loop (with whatever interrupt routines ran before the
  decoder was started) whose busy-wait ends with the decoder in \<open>Read_Error\<close>,
  the pass runs to its end with the client switched off, the threshold variable at the
  value it had when the pass began, and the status LED on.
\<close>

theorem error_disables_charging:
  assumes "163 < unat (snd (adc_first inp))"
    and "busy_wait (interrupts inp)
           (start_reading (snd (getAdcValueBusyWait (adc_first inp) (run (stray inp) s)))) = Some s5"
    and "g_readDataState s5 = Read_Error"
  shows "\<exists>s'. main_loop_body inp s = Some (Slept, s') \<and> \<not> client_powered s' \<and>
           g_adcThreshold s' = g_adcThreshold s \<and> led_on s'"
proof -
  let ?s1 = "snd (getAdcValueBusyWait (adc_first inp) (run (stray inp) s))"
  have t1: "g_adcThreshold ?s1 = g_adcThreshold s"
    by (rule pass_entry_threshold)
  from busy_wait_keeps [OF assms(2)]
  have k: "g_adcThreshold s5 = g_adcThreshold s"
    by (simp add: start_reading_keeps t1)
  have body: "main_loop_body inp s = Some (Slept, sleep_tail (turnOnLed s5))"
    using assms by (simp add: main_loop_body_read adcValue_above charge_decision_error)
  show ?thesis
    using body k by (simp add: sleep_tail_fields(4))
qed

theorem error_disables_charging_witness:
  "163 < unat (200 :: 8 word) \<and>
   (\<exists>s'. main_loop_body \<lparr> adc_first = (0, 200), stray = [],
              interrupts = [(0, Int0), (0, Tim0_CompA 0), (0, Tim0_CompA 0)],
              adc_avg = \<lambda>i. (0, 104) \<rparr> (initializeRegisters power_on) = Some (Slept, s') \<and>
         \<not> client_powered s' \<and> g_adcThreshold s' = 7 \<and> led_on s')"
proof -
  let ?s = "initializeRegisters power_on"
  let ?inp = "\<lparr> adc_first = (0, 200), stray = [],
              interrupts = [(0, Int0), (0, Tim0_CompA 0), (0, Tim0_CompA 0)],
              adc_avg = \<lambda>i. (0, 104) \<rparr>"
  let ?m = "start_reading (snd (getAdcValueBusyWait (0, 200) ?s))"
  have above: "163 < unat (200 :: 8 word)" by simp
  from busy_wait_hold [OF start_reading_fields(1)]
  obtain a where a: "busy_wait [(0, Int0), (0, Tim0_CompA 0), (0, Tim0_CompA 0)] ?m = Some a"
      "g_readDataState a = Read_Error"
    by blast
  from error_disables_charging [of ?inp ?s a] above a
  have "\<exists>s'. main_loop_body ?inp ?s = Some (Slept, s') \<and> \<not> client_powered s' \<and>
           g_adcThreshold s' = 7 \<and> led_on s'"
    by (simp add: start_state)
  with above show ?thesis by simp
qed

section \<open>Low input voltage\<close>

text \<open>
  The claim C9 as worded, "in every pass with a low reading the decoder state machine
  is never started", fails of a pass that comes before the first reading:
  \<open>initializeRegisters\<close> leaves INT0 enabled on low level, so when the data line is low
  in such a pass the edge routine runs, and the pass ends with the decoder in
  \<open>Read_VerifyTrigger\<close>, INT0 masked and the timer started.
\<close>

theorem low_input_decoder_started_counterexample:
  "unat (100 :: 8 word) \<le> 163 \<and>
   int0_fires True False (initializeRegisters power_on) \<and>
   g_readDataState (initializeRegisters power_on) = Read_Idle \<and>
   TCCR0B (initializeRegisters power_on) = 0 \<and>
   map_option fst (main_loop_body
      \<lparr> adc_first = (0, 100), stray = [Int0], interrupts = [], adc_avg = Pair 0 \<circ> of_nat \<rparr>
      (initializeRegisters power_on)) = Some Slept \<and>
   map_option (g_readDataState \<circ> snd) (main_loop_body
      \<lparr> adc_first = (0, 100), stray = [Int0], interrupts = [], adc_avg = Pair 0 \<circ> of_nat \<rparr>
      (initializeRegisters power_on)) = Some Read_VerifyTrigger \<and>
   map_option (TCCR0B \<circ> snd) (main_loop_body
      \<lparr> adc_first = (0, 100), stray = [Int0], interrupts = [], adc_avg = Pair 0 \<circ> of_nat \<rparr>
      (initializeRegisters power_on)) = Some 4 \<and>
   map_option (EIMSK \<circ> snd) (main_loop_body
      \<lparr> adc_first = (0, 100), stray = [Int0], interrupts = [], adc_avg = Pair 0 \<circ> of_nat \<rparr>
      (initializeRegisters power_on)) = Some 0"
proof -
  let ?s = "initializeRegisters power_on"
  let ?inp = "\<lparr> adc_first = (0, 100), stray = [Int0], interrupts = [],
      adc_avg = Pair 0 \<circ> of_nat \<rparr>"
  let ?s1 = "snd (getAdcValueBusyWait (0, 100) (INT0_vect ?s))"
  have init: "g_readDataState ?s = Read_Idle" "TCCR0B ?s = 0" "EIMSK ?s = 1" "EICRA ?s = 0"
    by (simp_all add: initializeRegisters_def power_on_def Let_def)
  have fires: "int0_fires True False ?s"
    using init by (simp add: int0_fires_def)
  have edge: "decoder_view (INT0_vect ?s) = (Read_VerifyTrigger, 0, 0, 4, 0, 4, 0, 0)"
    by (simp add: decoder_view_def isr_defs initializeRegisters_def power_on_def Let_def
        VERIFYTRIGGERTIMEOUT_def)
  have low: "\<not> MINVOLTAGEADCVALUE < adcValue (snd (adc_first ?inp))"
    by (simp add: adcValue_above)
  have body: "main_loop_body ?inp ?s = Some (Slept, sleep_tail (double_blink (turnOffLed ?s1)))"
    using main_loop_body_low [OF low, of ?s] by simp
  have "decoder_view (sleep_tail (double_blink (turnOffLed ?s1))) = decoder_view (INT0_vect ?s)"
    using decoder_view_adc_only [OF getAdc_state, of "(0, 100)" "INT0_vect ?s"]
    by (simp add: double_blink_id)
  with edge have "decoder_view (sleep_tail (double_blink (turnOffLed ?s1))) =
      (Read_VerifyTrigger, 0, 0, 4, 0, 4, 0, 0)"
    by simp
  then have "g_readDataState (sleep_tail (double_blink (turnOffLed ?s1))) = Read_VerifyTrigger"
    and "TCCR0B (sleep_tail (double_blink (turnOffLed ?s1))) = 4"
    and "EIMSK (sleep_tail (double_blink (turnOffLed ?s1))) = 0"
    by (simp_all add: decoder_view_def)
  with body fires init show ?thesis
    by simp
qed

text \<open>
  C9, amended. In a pass of the main loop whose first, single reading is not above
  \<open>MINVOLTAGEADCVALUE = 163\<close>: the pass ends after its sleep, and its result depends
  neither on the interrupts on offer for a busy-wait nor on averaged readings (no
  busy-wait is run and no charge decision is made); the pass ends in the last state of
  the low-voltage branch, and in no state of that branch is the client powered unless it
  was powered when the pass began; at the end it is off; the only busy loop that has
  run is the wait for the one conversion (the blink counter has advanced by its number
  of passes, so the power-on delay of \<open>turnOnClient\<close> has not run);
  the threshold variable is unchanged and the LED is off after the blinks. The main loop
  itself does not touch the decoder: its state, counters, timer and interrupt registers
  at the end of the pass are those left by the interrupt routines that ran during the
  pass. So the decoder is as it was when no routine runs in the pass, and whenever it is
  in \<open>Read_Timeout\<close> or \<open>Read_Error\<close> when the pass begins, as it is after every
  finished reading.
\<close>

theorem low_input_only_sleeps:
  assumes "unat (snd (adc_first inp)) \<le> 163"
  shows "\<exists>s'. main_loop_body inp s = Some (Slept, s') \<and>
           main_loop_body (inp\<lparr> interrupts := nes, adc_avg := rd \<rparr>) s = Some (Slept, s') \<and>
           s' = last (low_voltage_states
                        (snd (getAdcValueBusyWait (adc_first inp) (run (stray inp) s)))) \<and>
           (\<forall>t\<in>set (low_voltage_states
                     (snd (getAdcValueBusyWait (adc_first inp) (run (stray inp) s)))).
              client_powered t \<longrightarrow> client_powered s) \<and>
           g_ledBlinkCount s' = g_ledBlinkCount s + of_nat (fst (adc_first inp)) \<and>
           \<not> client_powered s' \<and>
           g_adcThreshold s' = g_adcThreshold s \<and> \<not> led_on s' \<and>
           decoder_view s' = decoder_view (run (stray inp) s) \<and>
           (stray inp = [] \<or> terminal s \<longrightarrow> decoder_view s' = decoder_view s)"
proof -
  let ?s0 = "run (stray inp) s"
  let ?s1 = "snd (getAdcValueBusyWait (adc_first inp) ?s0)"
  let ?s' = "sleep_tail (double_blink (turnOffLed ?s1))"
  have n: "\<not> MINVOLTAGEADCVALUE < adcValue (snd (adc_first inp))"
    using assms by (simp add: adcValue_above)
  have b1: "main_loop_body inp s = Some (Slept, ?s')"
    using n by (rule main_loop_body_low)
  have b2: "main_loop_body (inp\<lparr> interrupts := nes, adc_avg := rd \<rparr>) s = Some (Slept, ?s')"
    using n main_loop_body_low [of "inp\<lparr> interrupts := nes, adc_avg := rd \<rparr>" s] by simp
  have p1: "client_powered ?s1 = client_powered s"
    using client_powered_adc_only [OF getAdc_state, of "adc_first inp" ?s0] by simp
  have never: "\<forall>t\<in>set (low_voltage_states ?s1). client_powered t \<longrightarrow> client_powered s"
    using low_voltage_states_client [of ?s1] p1 by simp
  have thr: "g_adcThreshold ?s' = g_adcThreshold s"
    by (simp add: sleep_tail_fields(4) double_blink_id pass_entry_threshold)
  have led: "\<not> led_on ?s'"
    by (simp add: double_blink_id)
  have dv: "decoder_view ?s' = decoder_view ?s0"
    using decoder_view_adc_only [OF getAdc_state, of "adc_first inp" ?s0]
    by (simp add: double_blink_id)
  have same: "decoder_view ?s' = decoder_view s" if "stray inp = [] \<or> terminal s"
    using that dv by (auto simp: run_terminal)
  have off: "\<not> client_powered ?s'"
    by simp
  have tie: "?s' = last (low_voltage_states ?s1)"
    by (simp add: last_low_voltage_states)
  have cnt: "g_ledBlinkCount ?s' = g_ledBlinkCount s + of_nat (fst (adc_first inp))"
    by (rule low_pass_blink_count)
  from b1 b2 tie never cnt off thr led dv same show ?thesis
    by blast
qed

theorem low_input_only_sleeps_witness:
  "unat (163 :: 8 word) \<le> 163 \<and>
   terminal ((initializeRegisters power_on)\<lparr> g_readDataState := Read_Timeout, DDRB := 10 \<rparr>) \<and>
   client_powered ((initializeRegisters power_on)\<lparr> g_readDataState := Read_Timeout, DDRB := 10 \<rparr>) \<and>
   client_powered (hd (low_voltage_states (snd (getAdcValueBusyWait (5, 163)
      (run [Int0, Tim0_Ovf]
        ((initializeRegisters power_on)\<lparr> g_readDataState := Read_Timeout, DDRB := 10 \<rparr>)))))) \<and>
   (\<exists>s'. main_loop_body \<lparr> adc_first = (5, 163), stray = [],
              interrupts = map (Pair 0) (frame_events 100), adc_avg = \<lambda>i. (0, 104) \<rparr>
            (initializeRegisters power_on) = Some (Slept, s') \<and>
         \<not> client_powered s' \<and> g_adcThreshold s' = 7 \<and> \<not> led_on s' \<and>
         decoder_view s' = decoder_view (initializeRegisters power_on)) \<and>
   (\<exists>s'. main_loop_body \<lparr> adc_first = (5, 163), stray = [Int0, Tim0_Ovf],
              interrupts = [], adc_avg = \<lambda>i. (0, 104) \<rparr>
            ((initializeRegisters power_on)\<lparr> g_readDataState := Read_Timeout, DDRB := 10 \<rparr>)
            = Some (Slept, s') \<and>
         \<not> client_powered s' \<and>
         decoder_view s' =
           decoder_view ((initializeRegisters power_on)\<lparr> g_readDataState := Read_Timeout, DDRB := 10 \<rparr>))"
proof -
  let ?s = "initializeRegisters power_on"
  let ?u = "?s\<lparr> g_readDataState := Read_Timeout, DDRB := 10 \<rparr>"
  let ?i1 = "\<lparr> adc_first = (5, 163), stray = [],
              interrupts = map (Pair 0) (frame_events 100), adc_avg = \<lambda>i. (0, 104) \<rparr>"
  let ?i2 = "\<lparr> adc_first = (5, 163), stray = [Int0, Tim0_Ovf],
              interrupts = [], adc_avg = \<lambda>i. (0, 104) \<rparr>"
  have low: "unat (163 :: 8 word) \<le> 163" by simp
  have fin: "terminal ?u"
    by (simp add: terminal_def)
  have pow: "client_powered ?u"
    by (simp add: client_powered_def)
  have head: "client_powered (hd (low_voltage_states (snd (getAdcValueBusyWait (5, 163)
      (run [Int0, Tim0_Ovf] ?u)))))"
    using client_powered_adc_only [OF getAdc_state, of "(5, 163)" "run [Int0, Tim0_Ovf] ?u"] pow
    by (simp add: low_voltage_states_def Let_def del: run.simps)
  from low_input_only_sleeps [where inp = ?i1 and s = ?s and nes = "[]" and rd = "\<lambda>i. (0, 104)"] low
  have first: "\<exists>s'. main_loop_body ?i1 ?s = Some (Slept, s') \<and>
         \<not> client_powered s' \<and> g_adcThreshold s' = 7 \<and> \<not> led_on s' \<and>
         decoder_view s' = decoder_view ?s"
    by (auto simp: start_state)
  from low_input_only_sleeps [where inp = ?i2 and s = ?u and nes = "[]" and rd = "\<lambda>i. (0, 104)"] low fin
  have second: "\<exists>s'. main_loop_body ?i2 ?u = Some (Slept, s') \<and>
         \<not> client_powered s' \<and> decoder_view s' = decoder_view ?u"
    by auto
  from low fin pow head first second show ?thesis
    by blast
qed

section \<open>Hysteresis\<close>

text \<open>
  C7. Over every sequence of passes of the main loop that return: each pass that keeps
  charging (\<open>Retry\<close>) leaves the threshold at its high value with the client powered,
  so the threshold stays high through consecutive such passes; a pass changes the
  threshold to another value only by setting it low, and only when it ends with the
  client switched off after a \<open>Read_Timeout\<close> outcome.
\<close>

theorem threshold_hysteresis:
  assumes "main_passes inps s = Some rs"
  shows "hysteresis_monotone s rs"
  using assms
proof (induction inps arbitrary: s rs)
  case Nil
  then show ?case by simp
next
  case (Cons inp inps)
  from Cons.prems obtain r rs' where b: "main_loop_body inp s = Some r"
    and p: "main_passes inps (snd r) = Some rs'" and rs: "rs = r # rs'"
    by (auto split: option.splits)
  from pass_step [OF b] Cons.IH [OF p] rs show ?case
    by simp
qed

theorem threshold_hysteresis_witness:
  "\<exists>s1 s2 s3.
     main_passes
       [\<lparr> adc_first = (0, 200), stray = [], interrupts = map (Pair 0) (frame_events 100),
          adc_avg = \<lambda>i. (0, 104) \<rparr>,
        \<lparr> adc_first = (0, 200), stray = [Int0], interrupts = map (Pair 0) (frame_events 120),
          adc_avg = \<lambda>i. (0, 104) \<rparr>,
        \<lparr> adc_first = (0, 150), stray = [], interrupts = [], adc_avg = \<lambda>i. (0, 104) \<rparr>]
       (initializeRegisters power_on) = Some [(Retry, s1), (Slept, s2), (Slept, s3)] \<and>
     hysteresis_monotone (initializeRegisters power_on) [(Retry, s1), (Slept, s2), (Slept, s3)] \<and>
     g_adcThreshold s1 = 7 \<and> g_adcThreshold s2 = 4 \<and> g_adcThreshold s3 = 4"
proof -
  let ?s = "initializeRegisters power_on"
  let ?i100 = "\<lparr> adc_first = (0, 200), stray = [], interrupts = map (Pair 0) (frame_events 100),
              adc_avg = \<lambda>i. (0, 104) \<rparr>"
  let ?i120 = "\<lparr> adc_first = (0, 200), stray = [Int0], interrupts = map (Pair 0) (frame_events 120),
              adc_avg = \<lambda>i. (0, 104) \<rparr>"
  let ?ilow = "\<lparr> adc_first = (0, 150), stray = [], interrupts = [], adc_avg = \<lambda>i. (0, 104) \<rparr>"
  have above: "163 < unat (200 :: 8 word)" by simp
  have thr: "g_adcThreshold ?s = 7 \<or> g_adcThreshold ?s = 4"
    by (simp add: start_state)
  from busy_wait_frame [OF start_reading_fields(1), of 100]
  obtain a where a: "busy_wait (map (Pair 0) (frame_events 100))
        (start_reading (snd (getAdcValueBusyWait (0, 200) ?s))) = Some a"
      "g_readDataState a = Read_Timeout" "g_incomingCount a = 100"
    by auto
  from pass_timeout [of ?i100 ?s a] above a thr
  obtain s1 where s1: "main_loop_body ?i100 ?s = Some (Retry, s1)" "g_adcThreshold s1 = 7"
    by (auto simp: start_state spec_average_const)
  from busy_wait_frame [OF start_reading_fields(1), of 120]
  obtain b where b: "busy_wait (map (Pair 0) (frame_events 120))
        (start_reading (snd (getAdcValueBusyWait (0, 200) (run [Int0] s1)))) = Some b"
      "g_readDataState b = Read_Timeout" "g_incomingCount b = 120"
    by auto
  from pass_timeout [of ?i120 s1 b] above b s1(2)
  obtain s2 where s2: "main_loop_body ?i120 s1 = Some (Slept, s2)" "g_adcThreshold s2 = 4"
    by (auto simp: spec_average_const)
  from pass_low [of ?ilow s2]
  obtain s3 where s3: "main_loop_body ?ilow s2 = Some (Slept, s3)"
      "g_adcThreshold s3 = g_adcThreshold s2"
    by auto
  have run: "main_passes [?i100, ?i120, ?ilow] ?s = Some [(Retry, s1), (Slept, s2), (Slept, s3)]"
    using s1(1) s2(1) s3(1) by simp
  from threshold_hysteresis [OF run] run s1(2) s2(2) s3(2) show ?thesis
    by auto
qed

end
